theory Spec2Isabelle
  imports Main "HOL-Library.Multiset"
begin

section \<open>Data model of \<^verbatim>\<open>agent_streamlit.py\<close>\<close>

text \<open>
  The errors a call can end with. The source raises whatever the language-model library
  raises; the two kinds named by the specification are kept apart so that "propagates
  unchanged" can be stated. \<open>AttributeError\<close> is what Python raises when an object
  lacks the attribute the code reads; \<open>TypeError\<close> stands for a value of the wrong type.
\<close>

datatype error = GenerationFormatError | TransportError | TypeError | AttributeError

text \<open>\<^verbatim>\<open>class Module(BaseModel)\<close>: a name and the list of its skills.\<close>

record Module =
  "module_name" :: string
  skills :: "string list"

text \<open>A \<^verbatim>\<open>datetime\<close> value is a reading of the clock.\<close>

type_synonym datetime = int

text \<open>
  \<^verbatim>\<open>class _BaseContentOut(BaseModel)\<close>. Every metadata field is \<^verbatim>\<open>Optional[...]\<close>, hence an
  option here. The field \<^verbatim>\<open>id\<close> is called \<open>id_field\<close> since \<open>id\<close> is the identity
  function of HOL.
\<close>

record BaseContentOut =
  id_field :: "int option"
  title :: string
  is_complete :: "bool option"
  module_id :: "int option"
  created_at :: "datetime option"
  updated_at :: "datetime option"

text \<open>\<^verbatim>\<open>class TextContentOut(_BaseContentOut)\<close>, whose \<^verbatim>\<open>type\<close> is the literal "Text".\<close>

record TextContentOut = BaseContentOut +
  body :: string

text \<open>\<^verbatim>\<open>class QuestionContentOut(_BaseContentOut)\<close>, whose \<^verbatim>\<open>type\<close> is the literal "Question".\<close>

record QuestionContentOut = BaseContentOut +
  question_text :: string
  options :: "string list"
  correct_answer :: string
  user_answer :: "string option"

text \<open>\<^verbatim>\<open>Union[TextContentOut, QuestionContentOut]\<close>; the tag is the \<^verbatim>\<open>type\<close> field.\<close>

datatype ContentBlock = Text TextContentOut | Question QuestionContentOut

fun type_field :: "ContentBlock \<Rightarrow> string" where
  "type_field (Text t) = ''Text''"
| "type_field (Question q) = ''Question''"

fun block_module_id :: "ContentBlock \<Rightarrow> int option" where
  "block_module_id (Text t) = module_id t"
| "block_module_id (Question q) = module_id q"

text \<open>
  A field declared \<^verbatim>\<open>Optional[T] = Field(default=d)\<close>: when the input does not supply it
  (\<open>None\<close>) the field is \<open>d\<close>; when the input supplies a value or an explicit null
  (\<open>Some v\<close>) the field is \<open>v\<close>.
\<close>

definition Field :: "'a \<Rightarrow> 'a option option \<Rightarrow> 'a option" where
  "Field dflt supplied = (case supplied of None \<Rightarrow> Some dflt | Some v \<Rightarrow> v)"

text \<open>
  Construction of the two block classes from the supplied fields. \<open>created_now\<close> and
  \<open>updated_now\<close> are what the two calls of \<^verbatim>\<open>datetime.now\<close> return when the timestamp
  defaults are taken. The arguments are the inputs under the names by which the classes
  take them: \<^verbatim>\<open>id\<close>, \<^verbatim>\<open>title\<close>, \<^verbatim>\<open>body\<close>, \<^verbatim>\<open>options\<close> and the aliases \<^verbatim>\<open>isComplete\<close>,
  \<^verbatim>\<open>moduleId\<close>, \<^verbatim>\<open>createdAt\<close>, \<^verbatim>\<open>updatedAt\<close>, \<^verbatim>\<open>questionText\<close>, \<^verbatim>\<open>correctAnswer\<close>,
  \<^verbatim>\<open>userAnswer\<close>. An input under any other name, such as the field name \<^verbatim>\<open>module_id\<close>, is
  not read by the classes and is no argument here. No validator is declared on either
  class, so every well-typed input is accepted.
\<close>

definition TextContentOut_init ::
  "datetime \<Rightarrow> datetime \<Rightarrow> int option option \<Rightarrow> string \<Rightarrow> bool option option \<Rightarrow> int option option \<Rightarrow>
   datetime option option \<Rightarrow> datetime option option \<Rightarrow> string \<Rightarrow> TextContentOut" where
  "TextContentOut_init created_now updated_now id_in title_in isComplete moduleId createdAt updatedAt body_in =
     \<lparr>id_field = Field 1 id_in,
      title = title_in,
      is_complete = Field True isComplete,
      module_id = Field 1 moduleId,
      created_at = Field created_now createdAt,
      updated_at = Field updated_now updatedAt,
      body = body_in\<rparr>"

definition QuestionContentOut_init ::
  "datetime \<Rightarrow> datetime \<Rightarrow> int option option \<Rightarrow> string \<Rightarrow> bool option option \<Rightarrow> int option option \<Rightarrow>
   datetime option option \<Rightarrow> datetime option option \<Rightarrow> string \<Rightarrow> string list \<Rightarrow> string \<Rightarrow>
   string option option \<Rightarrow> QuestionContentOut" where
  "QuestionContentOut_init created_now updated_now id_in title_in isComplete moduleId createdAt updatedAt
       questionText options_in correctAnswer userAnswer =
     \<lparr>id_field = Field 1 id_in,
      title = title_in,
      is_complete = Field True isComplete,
      module_id = Field 1 moduleId,
      created_at = Field created_now createdAt,
      updated_at = Field updated_now updatedAt,
      question_text = questionText,
      options = options_in,
      correct_answer = correctAnswer,
      user_answer = (case userAnswer of None \<Rightarrow> None | Some v \<Rightarrow> v)\<rparr>"

text \<open>
  \<^verbatim>\<open>class ModuleContentBundle(BaseModel)\<close>. Its name field is \<open>bundle_module_name\<close>, since
  \<open>module_name\<close> is the field of \<open>Module\<close>.
\<close>

record ModuleContentBundle =
  bundle_module_name :: string
  content_blocks :: "ContentBlock list"

text \<open>\<^verbatim>\<open>class CourseContentResult(BaseModel)\<close>.\<close>

record CourseContentResult =
  modules :: "ModuleContentBundle list"

section \<open>The content generation orchestrator\<close>

text \<open>
  \<^verbatim>\<open>ContentGenerator.forward\<close> hands the module name and one skill to the language model
  and returns a prediction whose \<^verbatim>\<open>content_blocks\<close> is a list of blocks, or raises. It is
  the external adapter: a parameter of the model, any function from the module name and
  the skill to the outcome of the call (the stub adapters of the specification's
  testable properties are of this kind).
\<close>

type_synonym adapter = "string \<Rightarrow> string \<Rightarrow> error + ContentBlock list"

text \<open>\<^verbatim>\<open>CourseContentGenerator._generate_skill_content\<close>.\<close>

definition generate_skill_content :: "adapter \<Rightarrow> string \<Rightarrow> string \<Rightarrow> error + ContentBlock list" where
  "generate_skill_content content_generator mname skill = content_generator mname skill"

text \<open>
  \<^verbatim>\<open>skill_tasks = [(module.module_name, skill) for skill in module.skills]\<close>
\<close>

definition skill_tasks :: "Module \<Rightarrow> (string \<times> string) list" where
  "skill_tasks m = map (\<lambda>skill. (module_name m, skill)) (skills m)"

text \<open>
  \<^verbatim>\<open>futures = [executor.submit(self._generate_skill_content, module_name, skill) for ...]\<close>.
  A future is modelled by the outcome of its task: the blocks, or the error that
  \<^verbatim>\<open>future.result()\<close> re-raises.
\<close>

definition submit_all :: "adapter \<Rightarrow> (string \<times> string) list \<Rightarrow> (error + ContentBlock list) list" where
  "submit_all content_generator tasks =
     map (\<lambda>(mname, skill). generate_skill_content content_generator mname skill) tasks"

text \<open>
  \<^verbatim>\<open>concurrent.futures.as_completed(futures)\<close> yields the futures in the order in which
  they finish. Which order that is depends on the threads; it is a parameter: the list of
  the positions of the futures, in completion order.
\<close>

definition as_completed :: "nat list \<Rightarrow> 'a list \<Rightarrow> 'a list" where
  "as_completed order futures = map (\<lambda>i. futures ! i) order"

text \<open>
  A completion order of \<open>k\<close> futures names each of the positions \<open>0..<k\<close> once:
  \<^verbatim>\<open>as_completed\<close> yields every future it was given exactly once.
\<close>

definition completion_order :: "nat \<Rightarrow> nat list \<Rightarrow> bool" where
  "completion_order k order \<longleftrightarrow> sort order = [0..<k]"

text \<open>
  The collection loop:
  \<^verbatim>\<open>
  content_blocks = []
  for future in concurrent.futures.as_completed(futures):
      result = future.result()
      content_blocks.extend(result.content_blocks)
  \<close>
  \<^verbatim>\<open>future.result()\<close> raises the error of a failed task, which leaves the loop.
\<close>

fun collect :: "ContentBlock list \<Rightarrow> (error + ContentBlock list) list \<Rightarrow> error + ContentBlock list" where
  "collect blocks [] = Inr blocks"
| "collect blocks (future # rest) =
     (case future of
        Inl e \<Rightarrow> Inl e
      | Inr result \<Rightarrow> collect (blocks @ result) rest)"

text \<open>
  The body of the loop over the modules, from the executor to the bundle.
\<close>

definition forward_module :: "adapter \<Rightarrow> nat list \<Rightarrow> Module \<Rightarrow> error + ModuleContentBundle" where
  "forward_module content_generator order m =
     (let futures = submit_all content_generator (skill_tasks m) in
      case collect [] (as_completed order futures) of
        Inl e \<Rightarrow> Inl e
      | Inr blocks \<Rightarrow> Inr \<lparr>bundle_module_name = module_name m, content_blocks = blocks\<rparr>)"

text \<open>
  \<^verbatim>\<open>CourseContentGenerator.forward\<close>. The loop \<^verbatim>\<open>for module in modules\<close> runs over the rest of
  the module list, with \<open>i\<close> the position of the current module, \<open>sched i\<close> the completion
  order of its futures, \<open>module_bundles\<close> the bundles appended so far, and \<open>submitted\<close>
  the tasks handed to \<^verbatim>\<open>executor.submit\<close> so far. All tasks of a module are submitted
  before the first result is collected, so they are recorded also when the collection
  fails. An error leaves the loop and the function.
\<close>

fun forward_loop ::
  "adapter \<Rightarrow> (nat \<Rightarrow> nat list) \<Rightarrow> nat \<Rightarrow> Module list \<Rightarrow> ModuleContentBundle list \<Rightarrow>
   (string \<times> string) list \<Rightarrow> (error + CourseContentResult) \<times> (string \<times> string) list" where
  "forward_loop content_generator sched i [] module_bundles submitted =
     (Inr \<lparr>modules = module_bundles\<rparr>, submitted)"
| "forward_loop content_generator sched i (m # rest) module_bundles submitted =
     (case forward_module content_generator (sched i) m of
        Inl e \<Rightarrow> (Inl e, submitted @ skill_tasks m)
      | Inr bundle \<Rightarrow>
          forward_loop content_generator sched (Suc i) rest (module_bundles @ [bundle])
            (submitted @ skill_tasks m))"

definition forward ::
  "adapter \<Rightarrow> (nat \<Rightarrow> nat list) \<Rightarrow> Module list \<Rightarrow>
   (error + CourseContentResult) \<times> (string \<times> string) list" where
  "forward content_generator sched ms = forward_loop content_generator sched 0 ms [] []"

text \<open>
  A schedule is valid for a module list when it gives each module a completion order of
  its futures, one future per skill.
\<close>

definition valid_sched :: "(nat \<Rightarrow> nat list) \<Rightarrow> Module list \<Rightarrow> bool" where
  "valid_sched sched ms \<longleftrightarrow>
     (\<forall>i < length ms. completion_order (length (skills (ms ! i))) (sched i))"

section \<open>Notions used to state the properties\<close>

text \<open>Every adapter call that the module list asks for returns blocks.\<close>

definition all_succeed :: "adapter \<Rightarrow> Module list \<Rightarrow> bool" where
  "all_succeed gen ms \<longleftrightarrow> (\<forall>m \<in> set ms. \<forall>s \<in> set (skills m). \<not> isl (gen (module_name m) s))"

text \<open>The blocks that the tasks of a module return, as a multiset.\<close>

definition task_blocks :: "adapter \<Rightarrow> Module \<Rightarrow> ContentBlock multiset" where
  "task_blocks gen m = (\<Sum>s \<leftarrow> skills m. mset (projr (gen (module_name m) s)))"

text \<open>
  The scenario of the specification: a stub adapter that returns one text block per
  skill, and the module "Web Basics" with its two skills.
\<close>

definition stub_adapter :: adapter where
  "stub_adapter mname skill =
     Inr [Text (TextContentOut_init 0 0 None skill None None None None (''About '' @ skill))]"

definition web_basics :: Module where
  "web_basics = \<lparr>module_name = ''Web Basics'', skills = [''HTML basics'', ''CSS basics'']\<rparr>"

text \<open>
  An adapter that fails on the skill "CSS basics" and answers like the stub otherwise, a
  second module, and a module without skills.
\<close>

definition failing_adapter :: adapter where
  "failing_adapter mname skill =
     (if skill = ''CSS basics'' then Inl GenerationFormatError else stub_adapter mname skill)"

definition scripting :: Module where
  "scripting = \<lparr>module_name = ''Scripting'', skills = [''JavaScript basics'']\<rparr>"

definition no_skills :: Module where
  "no_skills = \<lparr>module_name = ''Outlook'', skills = []\<rparr>"

text \<open>
  Schedules for the scenarios: the futures finish in submission order, or in the reverse
  order for the two tasks of the first module.
\<close>

definition in_order :: "Module list \<Rightarrow> nat \<Rightarrow> nat list" where
  "in_order ms i = [0..<length (skills (ms ! i))]"

definition first_reversed :: "Module list \<Rightarrow> nat \<Rightarrow> nat list" where
  "first_reversed ms i = (if i = 0 then rev (in_order ms i) else in_order ms i)"

text \<open>
  A question block with no options, whose correct answer is therefore not among them, and
  an adapter that returns a given question block for every skill.
\<close>

definition bad_question :: QuestionContentOut where
  "bad_question =
     QuestionContentOut_init 0 0 None ''Quiz'' None None None None
       ''Which tag starts a paragraph?'' [] ''p'' None"

definition question_adapter :: "QuestionContentOut \<Rightarrow> adapter" where
  "question_adapter q mname skill = Inr [Question q]"

text \<open>
  What a result says about module ownership: for each bundle, its name and the
  owning-module references (\<open>module_id\<close>) of its blocks, in order. A failed run has none.
\<close>

definition module_refs :: "error + CourseContentResult \<Rightarrow> (string \<times> int option list) list" where
  "module_refs res =
     (case res of
        Inl e \<Rightarrow> []
      | Inr r \<Rightarrow> map (\<lambda>b. (bundle_module_name b, map block_module_id (content_blocks b))) (modules r))"

section \<open>The orchestrator on a store of objects\<close>

text \<open>
  Python objects are shared by reference, and lists and model objects are mutable. To
  state what \<^verbatim>\<open>forward\<close> writes, the objects it touches live in a store: the object
  with reference \<open>a\<close> is the entry \<open>a\<close> of a list, a new object is appended. Strings
  and content blocks are immutable values.
\<close>

datatype pyobj =
    StrList "string list"
  | ModuleObj string nat
  | RefList "nat list"
  | TaskList "(string \<times> string) list"
  | FutureList "(error + ContentBlock list) list"
  | BlockList "ContentBlock list"
  | BundleObj ModuleContentBundle
  | ResultObj "nat list"

type_synonym heap = "pyobj list"

text \<open>Creating an object appends it to the store and returns its reference.\<close>

definition alloc :: "heap \<Rightarrow> pyobj \<Rightarrow> nat \<times> heap" where
  "alloc h obj = (length h, h @ [obj])"

text \<open>Following a reference; there is no object behind a reference out of range.\<close>

definition lookup :: "heap \<Rightarrow> nat \<Rightarrow> pyobj option" where
  "lookup h a = (if a < length h then Some (h ! a) else None)"

text \<open>
  The collection loop on the store: \<^verbatim>\<open>content_blocks.extend(result.content_blocks)\<close>
  overwrites the list object \<open>cb\<close> that \<^verbatim>\<open>content_blocks\<close> refers to.
\<close>

fun collect_heap :: "nat \<Rightarrow> (error + ContentBlock list) list \<Rightarrow> heap \<Rightarrow> (error + unit) \<times> heap" where
  "collect_heap cb [] h = (Inr (), h)"
| "collect_heap cb (future # rest) h =
     (case future of
        Inl e \<Rightarrow> (Inl e, h)
      | Inr result \<Rightarrow>
          (case lookup h cb of
             Some (BlockList blocks) \<Rightarrow> collect_heap cb rest (h[cb := BlockList (blocks @ result)])
           | _ \<Rightarrow> (Inl AttributeError, h)))"

text \<open>
  The body of the loop over the modules on the store. \<^verbatim>\<open>module.module_name\<close> and
  \<^verbatim>\<open>module.skills\<close> are read from the module object \<open>mref\<close>; the lists
  \<^verbatim>\<open>skill_tasks\<close>, \<^verbatim>\<open>futures\<close> and \<^verbatim>\<open>content_blocks\<close> are new objects;
  \<^verbatim>\<open>ModuleContentBundle(module_name=module.module_name, content_blocks=content_blocks)\<close>
  reads the module object again and creates the bundle object, which holds its own
  validated copy of the block list. An object without the attribute \<^verbatim>\<open>skills\<close> raises
  \<open>AttributeError\<close>. A \<open>Module\<close> is validated when it is constructed, so its skills
  are a list of strings; a store in which they are anything else is answered with
  \<open>TypeError\<close>.
\<close>

definition forward_module_heap :: "adapter \<Rightarrow> nat list \<Rightarrow> nat \<Rightarrow> heap \<Rightarrow> (error + nat) \<times> heap" where
  "forward_module_heap content_generator order mref h =
     (case lookup h mref of
        Some (ModuleObj name skills_ref) \<Rightarrow>
          (case lookup h skills_ref of
             Some (StrList sk) \<Rightarrow>
               (let tasks = map (\<lambda>skill. (name, skill)) sk;
                    (st, h1) = alloc h (TaskList tasks);
                    futures = submit_all content_generator tasks;
                    (fs, h2) = alloc h1 (FutureList futures);
                    (cb, h3) = alloc h2 (BlockList [])
                in case collect_heap cb (as_completed order futures) h3 of
                     (Inl e, h4) \<Rightarrow> (Inl e, h4)
                   | (Inr u, h4) \<Rightarrow>
                       (case (lookup h4 mref, lookup h4 cb) of
                          (Some (ModuleObj name' skills_ref'), Some (BlockList blocks)) \<Rightarrow>
                            (let (b, h5) = alloc h4
                                 (BundleObj \<lparr>bundle_module_name = name', content_blocks = blocks\<rparr>)
                             in (Inr b, h5))
                        | _ \<Rightarrow> (Inl AttributeError, h4)))
           | _ \<Rightarrow> (Inl TypeError, h))
      | _ \<Rightarrow> (Inl AttributeError, h))"

text \<open>
  The loop over the references \<open>mrefs\<close> of the module objects;
  \<^verbatim>\<open>module_bundles.append(bundle)\<close> overwrites the list object \<open>mb\<close>. At the end
  \<^verbatim>\<open>CourseContentResult(modules=module_bundles)\<close> creates the result object.
\<close>

fun forward_loop_heap ::
  "adapter \<Rightarrow> (nat \<Rightarrow> nat list) \<Rightarrow> nat \<Rightarrow> nat list \<Rightarrow> nat \<Rightarrow> heap \<Rightarrow> (error + nat) \<times> heap" where
  "forward_loop_heap content_generator sched i [] mb h =
     (case lookup h mb of
        Some (RefList bundles) \<Rightarrow> (let (res, h') = alloc h (ResultObj bundles) in (Inr res, h'))
      | _ \<Rightarrow> (Inl AttributeError, h))"
| "forward_loop_heap content_generator sched i (mref # rest) mb h =
     (case forward_module_heap content_generator (sched i) mref h of
        (Inl e, h1) \<Rightarrow> (Inl e, h1)
      | (Inr b, h1) \<Rightarrow>
          (case lookup h1 mb of
             Some (RefList bundles) \<Rightarrow>
               forward_loop_heap content_generator sched (Suc i) rest mb
                 (h1[mb := RefList (bundles @ [b])])
           | _ \<Rightarrow> (Inl AttributeError, h1)))"

text \<open>
  An object over which \<^verbatim>\<open>for module in modules\<close> makes no step: a list without
  elements. Every other object of the store yields a first element: a list its first
  entry, a model object its first field.
\<close>

fun no_elements :: "pyobj \<Rightarrow> bool" where
  "no_elements (StrList xs) = (xs = [])"
| "no_elements (RefList xs) = (xs = [])"
| "no_elements (TaskList xs) = (xs = [])"
| "no_elements (FutureList xs) = (xs = [])"
| "no_elements (BlockList xs) = (xs = [])"
| "no_elements (ModuleObj name skills_ref) = False"
| "no_elements (BundleObj b) = False"
| "no_elements (ResultObj brefs) = False"

text \<open>
  \<^verbatim>\<open>CourseContentGenerator.forward\<close> on the store: \<^verbatim>\<open>module_bundles = []\<close> creates a list
  object, then the loop runs over the object that \<^verbatim>\<open>modules\<close> refers to. When that is
  a list of references, the loop visits the objects behind them. When it is anything
  else, its elements are not modules: the loop makes no step if there is no element, and
  \<^verbatim>\<open>module.skills\<close> raises \<open>AttributeError\<close> at the first element otherwise.
\<close>

definition forward_heap ::
  "adapter \<Rightarrow> (nat \<Rightarrow> nat list) \<Rightarrow> nat \<Rightarrow> heap \<Rightarrow> (error + nat) \<times> heap" where
  "forward_heap content_generator sched modules_ref h =
     (let (mb, h1) = alloc h (RefList []) in
      case lookup h1 modules_ref of
        Some (RefList mrefs) \<Rightarrow> forward_loop_heap content_generator sched 0 mrefs mb h1
      | Some obj \<Rightarrow>
          (if no_elements obj then forward_loop_heap content_generator sched 0 [] mb h1
           else (Inl AttributeError, h1))
      | None \<Rightarrow> (Inl AttributeError, h1))"

text \<open>What the store holds behind a reference, read back as a value.\<close>

definition read_module :: "heap \<Rightarrow> nat \<Rightarrow> Module option" where
  "read_module h mref =
     (case lookup h mref of
        Some (ModuleObj name skills_ref) \<Rightarrow>
          (case lookup h skills_ref of
             Some (StrList sk) \<Rightarrow> Some \<lparr>module_name = name, skills = sk\<rparr>
           | _ \<Rightarrow> None)
      | _ \<Rightarrow> None)"

definition read_modules :: "heap \<Rightarrow> nat \<Rightarrow> Module list option" where
  "read_modules h a =
     (case lookup h a of
        Some (RefList mrefs) \<Rightarrow> those (map (read_module h) mrefs)
      | _ \<Rightarrow> None)"

definition read_bundle :: "heap \<Rightarrow> nat \<Rightarrow> ModuleContentBundle option" where
  "read_bundle h a = (case lookup h a of Some (BundleObj b) \<Rightarrow> Some b | _ \<Rightarrow> None)"

definition read_result :: "heap \<Rightarrow> nat \<Rightarrow> CourseContentResult option" where
  "read_result h a =
     (case lookup h a of
        Some (ResultObj brefs) \<Rightarrow>
          map_option (\<lambda>bs. \<lparr>modules = bs\<rparr>) (those (map (read_bundle h) brefs))
      | _ \<Rightarrow> None)"

text \<open>A store that holds the module list of the scenario behind the reference 2.\<close>

definition web_heap :: heap where
  "web_heap = [StrList [''HTML basics'', ''CSS basics''], ModuleObj ''Web Basics'' 0, RefList [1]]"

text \<open>
  The objects of the store \<open>h0\<close> are all still there in the store \<open>h\<close>, each as it
  was.
\<close>

definition unchanged :: "heap \<Rightarrow> heap \<Rightarrow> bool" where
  "unchanged h0 h \<longleftrightarrow> length h0 \<le> length h \<and> (\<forall>p < length h0. h ! p = h0 ! p)"

section \<open>The run of the orchestrator as a sequence of events\<close>

text \<open>
  What the thread that runs \<^verbatim>\<open>forward\<close> does with the executor, in program order, for the
  module at position \<open>i\<close> and its task \<open>j\<close>:
  \<^item> \<open>PoolEnter i\<close>: \<^verbatim>\<open>with concurrent.futures.ThreadPoolExecutor(max_workers=5) as executor\<close>
    is entered, a new executor for this module;
  \<^item> \<open>Submit i j\<close>: \<^verbatim>\<open>executor.submit(self._generate_skill_content, module_name, skill)\<close>;
  \<^item> \<open>Done i j\<close>: \<^verbatim>\<open>as_completed\<close> yields the future of the task and \<^verbatim>\<open>future.result()\<close>
    is taken, so the task has finished by then, with blocks or with an error;
  \<^item> \<open>PoolExit i\<close>: the \<^verbatim>\<open>with\<close> block is left, normally or by the error.
\<close>

datatype event = PoolEnter nat | Submit nat nat | Done nat nat | PoolExit nat

fun module_of :: "event \<Rightarrow> nat" where
  "module_of (PoolEnter i) = i"
| "module_of (Submit i j) = i"
| "module_of (Done i j) = i"
| "module_of (PoolExit i) = i"

text \<open>
  The events of the collection loop: the futures are taken in completion order; the
  result of a failed future raises and leaves the loop, so no later future is taken.
\<close>

fun collect_events :: "nat \<Rightarrow> (error + ContentBlock list) list \<Rightarrow> nat list \<Rightarrow> event list" where
  "collect_events i futures [] = []"
| "collect_events i futures (j # order) =
     Done i j #
     (case futures ! j of
        Inl e \<Rightarrow> []
      | Inr result \<Rightarrow> collect_events i futures order)"

text \<open>
  The events of one pass of the loop over the modules: the executor is entered, every
  task is submitted (the list comprehension ends before the first result is taken), the
  results are collected, and the executor is left.
\<close>

definition module_events :: "adapter \<Rightarrow> nat list \<Rightarrow> nat \<Rightarrow> Module \<Rightarrow> event list" where
  "module_events content_generator order i m =
     (let futures = submit_all content_generator (skill_tasks m) in
      [PoolEnter i] @ map (Submit i) [0..<length futures] @
      collect_events i futures order @ [PoolExit i])"

text \<open>
  The events of the loop over the modules, which goes on to the next module only when the
  bundle of the current one was built, and of \<^verbatim>\<open>forward\<close>.
\<close>

fun forward_events :: "adapter \<Rightarrow> (nat \<Rightarrow> nat list) \<Rightarrow> nat \<Rightarrow> Module list \<Rightarrow> event list" where
  "forward_events content_generator sched i [] = []"
| "forward_events content_generator sched i (m # rest) =
     module_events content_generator (sched i) i m @
     (case forward_module content_generator (sched i) m of
        Inl e \<Rightarrow> []
      | Inr bundle \<Rightarrow> forward_events content_generator sched (Suc i) rest)"

definition forward_trace :: "adapter \<Rightarrow> (nat \<Rightarrow> nat list) \<Rightarrow> Module list \<Rightarrow> event list" where
  "forward_trace content_generator sched ms = forward_events content_generator sched 0 ms"

text \<open>The task that a submission hands to the executor.\<close>

fun submitted_task :: "Module list \<Rightarrow> event \<Rightarrow> (string \<times> string) list" where
  "submitted_task ms (Submit i j) = [(module_name (ms ! i), skills (ms ! i) ! j)]"
| "submitted_task ms (PoolEnter i) = []"
| "submitted_task ms (Done i j) = []"
| "submitted_task ms (PoolExit i) = []"

text \<open>
  After the events \<open>past\<close>, task \<open>j\<close> of module \<open>i\<close> is in flight: submitted, and its
  result not yet taken.
\<close>

definition in_flight :: "event list \<Rightarrow> nat \<Rightarrow> nat \<Rightarrow> bool" where
  "in_flight past i j \<longleftrightarrow> Submit i j \<in> set past \<and> Done i j \<notin> set past"


lemma collect_events_module: "e \<in> set (collect_events i fs order) \<Longrightarrow> module_of e = i"
  by (induction order) (auto split: sum.splits)

section \<open>The collection loop and the loop over the modules\<close>

lemma completion_order_mset:
  "completion_order k order \<Longrightarrow> mset order = mset [0..<k]"
  unfolding completion_order_def by (metis mset_sort)

lemma mset_as_completed:
  assumes "completion_order (length futures) order"
  shows "mset (as_completed order futures) = mset futures"
proof -
  have "mset (as_completed order futures) = image_mset (\<lambda>i. futures ! i) (mset order)"
    by (simp add: as_completed_def)
  also have "\<dots> = image_mset (\<lambda>i. futures ! i) (mset [0..<length futures])"
    using assms by (simp add: completion_order_mset)
  also have "\<dots> = mset (map (\<lambda>i. futures ! i) [0..<length futures])"
    by simp
  also have "\<dots> = mset futures"
    by (simp add: map_nth)
  finally show ?thesis .
qed

lemma set_as_completed:
  "completion_order (length futures) order \<Longrightarrow> set (as_completed order futures) = set futures"
  by (metis mset_as_completed set_mset_mset)

lemma collect_Inr_iff:
  "collect acc fs = Inr bs \<longleftrightarrow> (\<forall>f \<in> set fs. \<exists>r. f = Inr r) \<and> bs = acc @ concat (map projr fs)"
  by (induction fs arbitrary: acc) (auto split: sum.splits)

lemma collect_Inl:
  "collect acc fs = Inl e \<Longrightarrow> Inl e \<in> set fs"
  by (induction fs arbitrary: acc) (auto split: sum.splits)

lemma length_submit_all: "length (submit_all gen (skill_tasks m)) = length (skills m)"
  by (simp add: submit_all_def skill_tasks_def)

lemma submit_all_skill_tasks:
  "submit_all gen (skill_tasks m) = map (\<lambda>s. gen (module_name m) s) (skills m)"
  by (simp add: submit_all_def skill_tasks_def generate_skill_content_def comp_def)

lemma forward_module_Inr:
  assumes "forward_module gen order m = Inr b"
  shows "bundle_module_name b = module_name m"
    and "content_blocks b = concat (map projr (as_completed order (submit_all gen (skill_tasks m))))"
    and "\<forall>f \<in> set (as_completed order (submit_all gen (skill_tasks m))). \<exists>r. f = Inr r"
  using assms by (auto simp: forward_module_def Let_def collect_Inr_iff split: sum.splits)

lemma forward_module_Inr_valid:
  assumes "forward_module gen order m = Inr b"
    and "completion_order (length (skills m)) order"
  shows "mset (content_blocks b) = task_blocks gen m"
    and "\<forall>s \<in> set (skills m). \<exists>r. gen (module_name m) s = Inr r"
proof -
  let ?fs = "submit_all gen (skill_tasks m)"
  have ord: "completion_order (length ?fs) order"
    using assms(2) by (simp add: length_submit_all)
  have "mset (content_blocks b) = (\<Sum>f \<leftarrow> as_completed order ?fs. mset (projr f))"
    by (simp add: forward_module_Inr(2)[OF assms(1)] mset_concat comp_def)
  also have "\<dots> = sum_mset (image_mset (\<lambda>f. mset (projr f)) (mset (as_completed order ?fs)))"
    by (metis mset_map sum_mset_sum_list)
  also have "\<dots> = sum_mset (image_mset (\<lambda>f. mset (projr f)) (mset ?fs))"
    by (simp add: mset_as_completed[OF ord])
  also have "\<dots> = (\<Sum>f \<leftarrow> ?fs. mset (projr f))"
    by (metis mset_map sum_mset_sum_list)
  also have "\<dots> = task_blocks gen m"
    by (simp add: submit_all_skill_tasks task_blocks_def comp_def)
  finally show "mset (content_blocks b) = task_blocks gen m" .
  have "\<forall>f \<in> set ?fs. \<exists>r. f = Inr r"
    using forward_module_Inr(3)[OF assms(1)] set_as_completed[OF ord] by simp
  then show "\<forall>s \<in> set (skills m). \<exists>r. gen (module_name m) s = Inr r"
    by (simp add: submit_all_skill_tasks)
qed

lemma forward_module_succeeds:
  assumes "completion_order (length (skills m)) order"
    and "\<forall>s \<in> set (skills m). \<exists>r. gen (module_name m) s = Inr r"
  shows "\<exists>b. forward_module gen order m = Inr b"
proof -
  let ?fs = "submit_all gen (skill_tasks m)"
  have ord: "completion_order (length ?fs) order"
    using assms(1) by (simp add: length_submit_all)
  have "\<forall>f \<in> set ?fs. \<exists>r. f = Inr r"
    using assms(2) by (simp add: submit_all_skill_tasks)
  then have "\<forall>f \<in> set (as_completed order ?fs). \<exists>r. f = Inr r"
    using set_as_completed[OF ord] by simp
  then obtain bs where "collect [] (as_completed order ?fs) = Inr bs"
    using collect_Inr_iff by blast
  then show ?thesis
    by (simp add: forward_module_def)
qed

lemma forward_module_Inl:
  assumes "forward_module gen order m = Inl e"
    and "completion_order (length (skills m)) order"
  shows "\<exists>s \<in> set (skills m). gen (module_name m) s = Inl e"
proof -
  let ?fs = "submit_all gen (skill_tasks m)"
  have ord: "completion_order (length ?fs) order"
    using assms(2) by (simp add: length_submit_all)
  have "collect [] (as_completed order ?fs) = Inl e"
    using assms(1) by (auto simp: forward_module_def Let_def split: sum.splits)
  then have "Inl e \<in> set ?fs"
    using collect_Inl set_as_completed[OF ord] by blast
  then show ?thesis
    by (auto simp: submit_all_skill_tasks)
qed

lemma forward_loop_Inr:
  assumes "forward_loop gen sched i ms acc sub = (Inr r, sub')"
  shows "\<exists>bs. modules r = acc @ bs \<and> length bs = length ms \<and>
           (\<forall>j < length ms. forward_module gen (sched (i + j)) (ms ! j) = Inr (bs ! j)) \<and>
           sub' = sub @ concat (map skill_tasks ms)"
  using assms
proof (induction ms arbitrary: i acc sub)
  case Nil
  then show ?case by auto
next
  case (Cons m ms)
  from Cons.prems obtain b where b: "forward_module gen (sched i) m = Inr b"
    and rest: "forward_loop gen sched (Suc i) ms (acc @ [b]) (sub @ skill_tasks m) = (Inr r, sub')"
    by (auto split: sum.splits)
  from Cons.IH[OF rest] obtain bs where bs: "modules r = (acc @ [b]) @ bs" "length bs = length ms"
    "\<forall>j < length ms. forward_module gen (sched (Suc i + j)) (ms ! j) = Inr (bs ! j)"
    "sub' = (sub @ skill_tasks m) @ concat (map skill_tasks ms)"
    by blast
  have "\<forall>j < length (m # ms). forward_module gen (sched (i + j)) ((m # ms) ! j) = Inr ((b # bs) ! j)"
    using b bs(3) by (auto simp: nth_Cons split: nat.splits)
  then show ?case
    using bs by (intro exI[of _ "b # bs"]) simp
qed

lemma forward_loop_Inl:
  assumes "forward_loop gen sched i ms acc sub = (Inl e, sub')"
  shows "\<exists>k < length ms. forward_module gen (sched (i + k)) (ms ! k) = Inl e \<and>
           (\<forall>j < k. \<exists>b. forward_module gen (sched (i + j)) (ms ! j) = Inr b) \<and>
           sub' = sub @ concat (map skill_tasks (take (Suc k) ms))"
  using assms
proof (induction ms arbitrary: i acc sub)
  case Nil
  then show ?case by auto
next
  case (Cons m ms)
  show ?case
  proof (cases "forward_module gen (sched i) m")
    case (Inl e')
    with Cons.prems have "e' = e" "sub' = sub @ skill_tasks m" by auto
    with Inl show ?thesis by (intro exI[of _ 0]) simp
  next
    case (Inr b)
    with Cons.prems have
      rest: "forward_loop gen sched (Suc i) ms (acc @ [b]) (sub @ skill_tasks m) = (Inl e, sub')"
      by simp
    from Cons.IH[OF rest] obtain k where k: "k < length ms"
      "forward_module gen (sched (Suc i + k)) (ms ! k) = Inl e"
      "\<forall>j < k. \<exists>b. forward_module gen (sched (Suc i + j)) (ms ! j) = Inr b"
      "sub' = (sub @ skill_tasks m) @ concat (map skill_tasks (take (Suc k) ms))"
      by blast
    have "\<forall>j < Suc k. \<exists>b. forward_module gen (sched (i + j)) ((m # ms) ! j) = Inr b"
      using Inr k(3) by (auto simp: nth_Cons split: nat.splits)
    then show ?thesis
      using k by (intro exI[of _ "Suc k"]) simp
  qed
qed

lemma forward_loop_succeeds:
  assumes "\<forall>j < length ms. \<exists>b. forward_module gen (sched (i + j)) (ms ! j) = Inr b"
  shows "\<exists>r. forward_loop gen sched i ms acc sub = (Inr r, sub @ concat (map skill_tasks ms))"
proof (cases "forward_loop gen sched i ms acc sub")
  case (Pair res sub')
  show ?thesis
  proof (cases res)
    case (Inl e)
    with Pair forward_loop_Inl[of gen sched i ms acc sub e sub'] assms show ?thesis
      by fastforce
  next
    case (Inr r)
    with Pair forward_loop_Inr[of gen sched i ms acc sub r sub'] show ?thesis
      by auto
  qed
qed

lemma size_sum_list_mset:
  "size (\<Sum>x \<leftarrow> xs. mset (f x)) = (\<Sum>x \<leftarrow> xs. length (f x))"
  by (induction xs) auto

lemma size_task_blocks:
  "size (task_blocks gen m) = (\<Sum>s \<leftarrow> skills m. length (projr (gen (module_name m) s)))"
  unfolding task_blocks_def by (rule size_sum_list_mset)

lemma valid_sched_nth:
  "valid_sched sched ms \<Longrightarrow> i < length ms \<Longrightarrow> completion_order (length (skills (ms ! i))) (sched i)"
  by (simp add: valid_sched_def)


lemma forward_Inr:
  assumes "forward gen sched ms = (Inr r, sub)"
  shows "length (modules r) = length ms"
    and "\<forall>i < length ms. forward_module gen (sched i) (ms ! i) = Inr (modules r ! i)"
    and "sub = concat (map skill_tasks ms)"
  using forward_loop_Inr[of gen sched 0 ms "[]" "[]" r sub] assms
  by (auto simp: forward_def)

lemma forward_Inl:
  assumes "forward gen sched ms = (Inl e, sub)"
  shows "\<exists>k < length ms. forward_module gen (sched k) (ms ! k) = Inl e \<and>
           (\<forall>j < k. \<exists>b. forward_module gen (sched j) (ms ! j) = Inr b) \<and>
           sub = concat (map skill_tasks (take (Suc k) ms))"
  using forward_loop_Inl[of gen sched 0 ms "[]" "[]" e sub] assms
  by (auto simp: forward_def)


lemma forward_succeeds_iff:
  assumes "valid_sched sched ms"
  shows "(\<exists>r. fst (forward gen sched ms) = Inr r) \<longleftrightarrow>
         (\<forall>m \<in> set ms. \<forall>s \<in> set (skills m). \<exists>blocks. gen (module_name m) s = Inr blocks)"
proof
  assume "\<exists>r. fst (forward gen sched ms) = Inr r"
  then obtain r sub where fw: "forward gen sched ms = (Inr r, sub)"
    by (cases "forward gen sched ms") auto
  show "\<forall>m \<in> set ms. \<forall>s \<in> set (skills m). \<exists>blocks. gen (module_name m) s = Inr blocks"
  proof
    fix m assume "m \<in> set ms"
    then obtain i where i: "i < length ms" "ms ! i = m"
      by (auto simp: in_set_conv_nth)
    have "forward_module gen (sched i) (ms ! i) = Inr (modules r ! i)"
      using forward_Inr(2)[OF fw] i(1) by simp
    from forward_module_Inr_valid(2)[OF this valid_sched_nth[OF assms i(1)]] i(2)
    show "\<forall>s \<in> set (skills m). \<exists>blocks. gen (module_name m) s = Inr blocks"
      by simp
  qed
next
  assume ok: "\<forall>m \<in> set ms. \<forall>s \<in> set (skills m). \<exists>blocks. gen (module_name m) s = Inr blocks"
  have "\<forall>j < length ms. \<exists>b. forward_module gen (sched (0 + j)) (ms ! j) = Inr b"
    using assms ok by (simp add: forward_module_succeeds valid_sched_nth)
  from forward_loop_succeeds[OF this, of "[]" "[]"]
  show "\<exists>r. fst (forward gen sched ms) = Inr r"
    by (auto simp: forward_def)
qed

lemma forward_blocks_mset:
  assumes "valid_sched sched ms" and "forward gen sched ms = (Inr r, sub)"
  shows "map (\<lambda>b. mset (content_blocks b)) (modules r) = map (task_blocks gen) ms"
proof -
  have "mset (content_blocks (modules r ! i)) = task_blocks gen (ms ! i)" if i: "i < length ms" for i
  proof -
    have "forward_module gen (sched i) (ms ! i) = Inr (modules r ! i)"
      using forward_Inr(2)[OF assms(2)] i by simp
    from forward_module_Inr_valid(1)[OF this valid_sched_nth[OF assms(1) i]]
    show ?thesis .
  qed
  then show ?thesis
    using forward_Inr(1)[OF assms(2)] by (simp add: list_eq_iff_nth_eq)
qed

lemma forward_names:
  assumes "forward gen sched ms = (Inr r, sub)"
  shows "map bundle_module_name (modules r) = map module_name ms"
proof -
  have "bundle_module_name (modules r ! i) = module_name (ms ! i)" if "i < length ms" for i
    using forward_Inr(2)[OF assms] that forward_module_Inr(1) by blast
  then show ?thesis
    using forward_Inr(1)[OF assms] by (simp add: list_eq_iff_nth_eq)
qed


lemma all_succeed_iff:
  "all_succeed gen ms \<longleftrightarrow>
     (\<forall>m \<in> set ms. \<forall>s \<in> set (skills m). \<exists>blocks. gen (module_name m) s = Inr blocks)"
  unfolding all_succeed_def by (metis isl_def sum.collapse(2) sum.disc(2))

text \<open>The definitions that a run on a concrete input unfolds.\<close>

lemmas run_defs = forward_def forward_module_def submit_all_def skill_tasks_def as_completed_def
  generate_skill_content_def stub_adapter_def failing_adapter_def web_basics_def scripting_def
  no_skills_def in_order_def first_reversed_def valid_sched_def completion_order_def
  question_adapter_def all_succeed_def

section \<open>The orchestrator on the store: what it leaves alone, and what it computes\<close>

lemma unchanged_refl: "unchanged h h"
  by (simp add: unchanged_def)

lemma unchanged_alloc: "unchanged h0 h \<Longrightarrow> alloc h obj = (a, h') \<Longrightarrow> unchanged h0 h' \<and> length h0 \<le> a \<and> length h' = Suc (length h) \<and> a = length h"
  by (auto simp: unchanged_def alloc_def nth_append)

lemma unchanged_update: "unchanged h0 h \<Longrightarrow> length h0 \<le> a \<Longrightarrow> unchanged h0 (h[a := x])"
  by (simp add: unchanged_def)

lemma unchanged_lookup: "unchanged h0 h \<Longrightarrow> p < length h0 \<Longrightarrow> lookup h p = lookup h0 p"
  by (auto simp: unchanged_def lookup_def)

lemma collect_heap_unchanged:
  "unchanged h0 h \<Longrightarrow> length h0 \<le> cb \<Longrightarrow> collect_heap cb fs h = (r, h') \<Longrightarrow>
     unchanged h0 h' \<and> length h' = length h"
proof (induction fs arbitrary: h)
  case Nil
  then show ?case by simp
next
  case (Cons f fs)
  show ?case
  proof (cases f)
    case (Inl e)
    with Cons.prems show ?thesis by simp
  next
    case (Inr result)
    show ?thesis
    proof (cases "lookup h cb")
      case None
      with Inr Cons.prems show ?thesis by simp
    next
      case (Some obj)
      show ?thesis
      proof (cases obj)
        case (BlockList blocks)
        with Some Inr Cons.prems(3)
        have "collect_heap cb fs (h[cb := BlockList (blocks @ result)]) = (r, h')"
          by simp
        from Cons.IH[OF unchanged_update[OF Cons.prems(1,2)] Cons.prems(2) this]
        show ?thesis by simp
      qed (use Some Inr Cons.prems in auto)
    qed
  qed
qed

lemma forward_module_heap_unchanged:
  assumes "unchanged h0 h" and "forward_module_heap gen order mref h = (r, h')"
  shows "unchanged h0 h'"
proof (cases "lookup h mref")
  case None
  with assms show ?thesis by (simp add: forward_module_heap_def)
next
  case (Some obj)
  show ?thesis
  proof (cases obj)
    case (ModuleObj name skills_ref)
    show ?thesis
    proof (cases "lookup h skills_ref")
      case None
      with Some ModuleObj assms show ?thesis by (simp add: forward_module_heap_def)
    next
      case (Some obj')
      note sk = this
      show ?thesis
      proof (cases obj')
        case (StrList sk)
        define tasks where "tasks = map (\<lambda>skill. (name, skill)) sk"
        define futures where "futures = submit_all gen tasks"
        define h1 where "h1 = h @ [TaskList tasks]"
        define h2 where "h2 = h1 @ [FutureList futures]"
        define h3 where "h3 = h2 @ [BlockList []]"
        define cb where "cb = length h2"
        have u3: "unchanged h0 h3" and cb: "length h0 \<le> cb"
          using assms(1) by (auto simp: unchanged_def h1_def h2_def h3_def cb_def nth_append)
        obtain c h4 where c: "collect_heap cb (as_completed order futures) h3 = (c, h4)"
          by (cases "collect_heap cb (as_completed order futures) h3")
        from collect_heap_unchanged[OF u3 cb c] have u4: "unchanged h0 h4" by simp
        have app: "unchanged h0 h4 \<Longrightarrow> unchanged h0 (h4 @ [x])" for x
          by (auto simp: unchanged_def nth_append)
        note defs = forward_module_heap_def alloc_def Let_def tasks_def futures_def
              h1_def h2_def h3_def cb_def
        show ?thesis
        proof (cases c)
          case (Inl e)
          with \<open>lookup h mref = Some obj\<close> ModuleObj sk StrList c assms(2)
          have "h' = h4"
            by (simp add: defs)
          with u4 show ?thesis by simp
        next
          case (Inr u)
          with \<open>lookup h mref = Some obj\<close> ModuleObj sk StrList c assms(2)
          have "h' = h4 \<or> (\<exists>x. h' = h4 @ [x])"
            by (auto simp: defs split: option.splits pyobj.splits)
          with u4 app show ?thesis by auto
        qed
      qed (use \<open>lookup h mref = Some obj\<close> ModuleObj sk assms in \<open>auto simp: forward_module_heap_def\<close>)
    qed
  qed (use Some assms in \<open>auto simp: forward_module_heap_def\<close>)
qed

lemma forward_loop_heap_unchanged:
  "unchanged h0 h \<Longrightarrow> length h0 \<le> mb \<Longrightarrow>
   forward_loop_heap gen sched i mrefs mb h = (r, h') \<Longrightarrow> unchanged h0 h'"
proof (induction mrefs arbitrary: i h)
  case Nil
  then show ?case
    by (auto simp: alloc_def unchanged_def nth_append split: option.splits pyobj.splits)
next
  case (Cons mref rest)
  obtain rb h1 where fm: "forward_module_heap gen (sched i) mref h = (rb, h1)"
    by (cases "forward_module_heap gen (sched i) mref h")
  from forward_module_heap_unchanged[OF Cons.prems(1) fm] have u1: "unchanged h0 h1" .
  show ?case
  proof (cases rb)
    case (Inl e)
    with fm Cons.prems(3) u1 show ?thesis by simp
  next
    case (Inr b)
    show ?thesis
    proof (cases "lookup h1 mb")
      case None
      with Inr fm Cons.prems(3) u1 show ?thesis by simp
    next
      case (Some obj)
      show ?thesis
      proof (cases obj)
        case (RefList bundles)
        with Some Inr fm Cons.prems(3)
        have "forward_loop_heap gen sched (Suc i) rest mb (h1[mb := RefList (bundles @ [b])]) = (r, h')"
          by simp
        from Cons.IH[OF unchanged_update[OF u1 Cons.prems(2)] Cons.prems(2) this]
        show ?thesis .
      qed (use Some Inr fm Cons.prems(3) u1 in auto)
    qed
  qed
qed

lemma forward_heap_unchanged:
  assumes "forward_heap gen sched a h = (res, h')"
  shows "unchanged h h'"
proof -
  define h1 where "h1 = h @ [RefList []]"
  have u1: "unchanged h h1"
    by (auto simp: unchanged_def h1_def nth_append)
  have loop: "unchanged h h'" if "forward_loop_heap gen sched 0 mrefs (length h) h1 = (res, h')"
    for mrefs
    using forward_loop_heap_unchanged[OF u1 _ that] by simp
  show ?thesis
  proof (cases "lookup h1 a")
    case None
    with assms u1 show ?thesis
      by (simp add: forward_heap_def alloc_def h1_def)
  next
    case (Some obj)
    show ?thesis
    proof (cases "\<exists>mrefs. obj = RefList mrefs")
      case True
      then obtain mrefs where "obj = RefList mrefs"
        by blast
      with Some assms
      have "forward_loop_heap gen sched 0 mrefs (length h) h1 = (res, h')"
        by (simp add: forward_heap_def alloc_def h1_def)
      then show ?thesis by (rule loop)
    next
      case False
      with Some assms
      have "(if no_elements obj then forward_loop_heap gen sched 0 [] (length h) h1
             else (Inl AttributeError, h1)) = (res, h')"
        by (cases obj)
          (auto simp add: forward_heap_def alloc_def h1_def simp del: forward_loop_heap.simps
            split: if_splits)
      then show ?thesis
        using loop[of "[]"] u1 by (auto split: if_splits)
    qed
  qed
qed

lemma lookup_Some_unchanged:
  "unchanged h0 h \<Longrightarrow> lookup h0 p = Some obj \<Longrightarrow> lookup h p = Some obj"
  by (auto simp: unchanged_def lookup_def split: if_splits)

lemma read_module_unchanged:
  "unchanged h0 h \<Longrightarrow> read_module h0 mref = Some m \<Longrightarrow> read_module h mref = Some m"
  by (auto simp: read_module_def lookup_Some_unchanged split: option.splits pyobj.splits)

lemma read_bundle_unchanged:
  "unchanged h0 h \<Longrightarrow> read_bundle h0 b = Some x \<Longrightarrow> read_bundle h b = Some x"
  by (auto simp: read_bundle_def lookup_Some_unchanged split: option.splits pyobj.splits)

lemma those_map_unchanged:
  assumes "\<And>a x. f h0 a = Some x \<Longrightarrow> f h a = Some x"
  shows "those (map (f h0) as) = Some xs \<Longrightarrow> those (map (f h) as) = Some xs"
proof (induction as arbitrary: xs)
  case Nil
  then show ?case by simp
next
  case (Cons a as)
  then show ?case
    by (auto simp: assms split: option.splits)
qed

lemma read_modules_unchanged:
  assumes "unchanged h0 h" and "read_modules h0 a = Some ms"
  shows "read_modules h a = Some ms"
proof -
  from assms(2) obtain mrefs where l: "lookup h0 a = Some (RefList mrefs)"
    and t: "those (map (read_module h0) mrefs) = Some ms"
    by (auto simp: read_modules_def split: option.splits pyobj.splits)
  have "those (map (read_module h) mrefs) = Some ms"
    using t by (rule those_map_unchanged[rotated]) (rule read_module_unchanged[OF assms(1)])
  with lookup_Some_unchanged[OF assms(1) l] show ?thesis
    by (simp add: read_modules_def)
qed

lemma lookup_update:
  "lookup (h[a := x]) p = (if p = a \<and> a < length h then Some x else lookup h p)"
  by (auto simp: lookup_def)

lemma lookup_less: "lookup h a = Some obj \<Longrightarrow> a < length h"
  by (auto simp: lookup_def split: if_splits)

lemma collect_heap_refines:
  "lookup h cb = Some (BlockList acc) \<Longrightarrow> collect_heap cb fs h = (r, h') \<Longrightarrow>
     (r = Inl e \<longrightarrow> collect acc fs = Inl e) \<and>
     (r = Inr u \<longrightarrow> (\<exists>bs. collect acc fs = Inr bs \<and> lookup h' cb = Some (BlockList bs)))"
proof (induction fs arbitrary: h acc)
  case Nil
  then show ?case by auto
next
  case (Cons f fs)
  show ?case
  proof (cases f)
    case (Inl e)
    with Cons.prems show ?thesis by auto
  next
    case (Inr result)
    with Cons.prems
    have run: "collect_heap cb fs (h[cb := BlockList (acc @ result)]) = (r, h')"
      by simp
    have "lookup (h[cb := BlockList (acc @ result)]) cb = Some (BlockList (acc @ result))"
      using lookup_less[OF Cons.prems(1)] by (simp add: lookup_update)
    from Cons.IH[OF this run] Inr show ?thesis
      by simp
  qed
qed

lemma forward_module_heap_refines:
  assumes rm: "read_module h mref = Some m"
    and run: "forward_module_heap gen order mref h = (r, h')"
  shows "(r = Inl e \<longrightarrow> forward_module gen order m = Inl e) \<and>
         (r = Inr b \<longrightarrow> (\<exists>bundle. forward_module gen order m = Inr bundle \<and>
                      read_bundle h' b = Some bundle \<and> length h \<le> b))"
proof -
  from rm obtain name skills_ref sk where
    l1: "lookup h mref = Some (ModuleObj name skills_ref)" and
    l2: "lookup h skills_ref = Some (StrList sk)" and
    m: "m = \<lparr>module_name = name, skills = sk\<rparr>"
    by (auto simp: read_module_def split: option.splits pyobj.splits)
  define futures where "futures = submit_all gen (skill_tasks m)"
  define h3 where "h3 = h @ [TaskList (skill_tasks m), FutureList futures, BlockList []]"
  define cb where "cb = Suc (Suc (length h))"
  obtain c h4 where c: "collect_heap cb (as_completed order futures) h3 = (c, h4)"
    by (cases "collect_heap cb (as_completed order futures) h3")
  have u3: "unchanged h h3"
    by (auto simp: unchanged_def h3_def nth_append)
  have "length h \<le> cb"
    by (simp add: cb_def)
  from collect_heap_unchanged[OF u3 this c] have u4: "unchanged h h4" by simp
  have l3: "lookup h3 cb = Some (BlockList [])"
    by (simp add: lookup_def h3_def cb_def nth_append)
  note ch = collect_heap_refines[OF l3 c]
  have tasks: "map (Pair name) sk = skill_tasks m"
    by (simp add: skill_tasks_def m)
  note defs = forward_module_heap_def alloc_def Let_def
  show ?thesis
  proof (cases c)
    case (Inl e')
    with l1 l2 c run have "r = Inl e'"
      by (simp add: defs tasks futures_def h3_def cb_def)
    with ch[of e'] Inl show ?thesis
      by (simp add: forward_module_def futures_def)
  next
    case (Inr u)
    with ch[of _ u] obtain bs where bs: "collect [] (as_completed order futures) = Inr bs"
      "lookup h4 cb = Some (BlockList bs)"
      by auto
    have l4: "lookup h4 mref = Some (ModuleObj name skills_ref)"
      using lookup_Some_unchanged[OF u4 l1] .
    from l1 l2 c run Inr l4 bs(2)
    have r: "r = Inr (length h4)"
      "h' = h4 @ [BundleObj \<lparr>bundle_module_name = name, content_blocks = bs\<rparr>]"
      by (auto simp: defs tasks futures_def h3_def cb_def)
    have "length h \<le> length h4"
      using u4 by (simp add: unchanged_def)
    with r bs(1) show ?thesis
      by (auto simp: forward_module_def futures_def read_bundle_def lookup_def m)
  qed
qed

lemma those_snoc:
  "those (map f xs) = Some ys \<Longrightarrow> f x = Some y \<Longrightarrow> those (map f (xs @ [x])) = Some (ys @ [y])"
  by (induction xs arbitrary: ys) (auto split: option.splits)

lemma forward_loop_heap_refines:
  assumes "unchanged h0 h"
    and "those (map (read_module h0) mrefs) = Some ms"
    and "length h0 \<le> mb"
    and "lookup h mb = Some (RefList brefs)"
    and "those (map (read_bundle h) brefs) = Some acc"
    and "mb \<notin> set brefs"
    and "forward_loop_heap gen sched i mrefs mb h = (res, h')"
  shows "(res = Inl e \<longrightarrow> fst (forward_loop gen sched i ms acc sub) = Inl e) \<and>
         (res = Inr ra \<longrightarrow> (\<exists>r. fst (forward_loop gen sched i ms acc sub) = Inr r \<and>
                       read_result h' ra = Some r))"
  using assms
proof (induction mrefs arbitrary: h ms i brefs acc sub)
  case Nil
  have u: "unchanged h (h @ [ResultObj brefs])"
    by (auto simp: unchanged_def nth_append)
  have "those (map (read_bundle (h @ [ResultObj brefs])) brefs) = Some acc"
    using Nil.prems(5) by (rule those_map_unchanged[rotated]) (rule read_bundle_unchanged[OF u])
  with Nil.prems show ?case
    by (auto simp: alloc_def read_result_def lookup_def)
next
  case (Cons mref rest)
  from Cons.prems(2) obtain m ms' where m: "read_module h0 mref = Some m"
    and ms': "those (map (read_module h0) rest) = Some ms'" and ms: "ms = m # ms'"
    by (auto split: option.splits)
  have rm: "read_module h mref = Some m"
    using read_module_unchanged[OF Cons.prems(1) m] .
  obtain rb h1 where fm: "forward_module_heap gen (sched i) mref h = (rb, h1)"
    by (cases "forward_module_heap gen (sched i) mref h")
  note ref = forward_module_heap_refines[OF rm fm]
  have u1: "unchanged h h1"
    using forward_module_heap_unchanged[OF unchanged_refl fm] .
  show ?case
  proof (cases rb)
    case (Inl e')
    with fm Cons.prems(7) have "res = Inl e'"
      by simp
    moreover from ref[of e'] Inl have "forward_module gen (sched i) m = Inl e'"
      by simp
    ultimately show ?thesis
      by (simp add: ms)
  next
    case (Inr b)
    with ref[of _ b] obtain bdl where bdl: "forward_module gen (sched i) m = Inr bdl"
      "read_bundle h1 b = Some bdl" "length h \<le> b"
      by auto
    have l1: "lookup h1 mb = Some (RefList brefs)"
      using lookup_Some_unchanged[OF u1 Cons.prems(4)] .
    define h2 where "h2 = h1[mb := RefList (brefs @ [b])]"
    from Inr fm l1 Cons.prems(7)
    have run: "forward_loop_heap gen sched (Suc i) rest mb h2 = (res, h')"
      by (simp add: h2_def)
    have mbb: "mb \<noteq> b"
      using lookup_less[OF Cons.prems(4)] bdl(3) by simp
    have u02: "unchanged h0 h2"
      using Cons.prems(1,3) u1 by (auto simp: unchanged_def h2_def)
    have l2: "lookup h2 mb = Some (RefList (brefs @ [b]))"
      using lookup_less[OF l1] by (simp add: h2_def lookup_update)
    have rb2: "read_bundle h2 x = read_bundle h1 x" if "x \<noteq> mb" for x
      using that by (simp add: read_bundle_def h2_def lookup_update)
    have t1: "those (map (read_bundle h1) brefs) = Some acc"
      using Cons.prems(5) by (rule those_map_unchanged[rotated]) (rule read_bundle_unchanged[OF u1])
    have "read_bundle h2 x = read_bundle h1 x" if "x \<in> set brefs" for x
      using that Cons.prems(6) rb2[of x] by auto
    then have meq: "map (read_bundle h2) brefs = map (read_bundle h1) brefs"
      by simp
    have "those (map (read_bundle h2) brefs) = Some acc"
      unfolding meq by (rule t1)
    moreover have "read_bundle h2 b = Some bdl"
      using rb2[of b] mbb bdl(2) by simp
    ultimately have t2: "those (map (read_bundle h2) (brefs @ [b])) = Some (acc @ [bdl])"
      by (rule those_snoc)
    have nin: "mb \<notin> set (brefs @ [b])"
      using Cons.prems(6) mbb by simp
    from Cons.IH[OF u02 ms' Cons.prems(3) l2 t2 nin run, of "sub @ skill_tasks m"]
    show ?thesis
      by (simp add: ms bdl(1))
  qed
qed

lemma forward_heap_refines:
  assumes "read_modules h a = Some ms"
    and "forward_heap gen sched a h = (res, h')"
  shows "(res = Inl e \<longrightarrow> fst (forward gen sched ms) = Inl e) \<and>
         (res = Inr ra \<longrightarrow> (\<exists>r. fst (forward gen sched ms) = Inr r \<and> read_result h' ra = Some r))"
proof -
  from assms(1) obtain mrefs where l: "lookup h a = Some (RefList mrefs)"
    and t: "those (map (read_module h) mrefs) = Some ms"
    by (auto simp: read_modules_def split: option.splits pyobj.splits)
  define h1 where "h1 = h @ [RefList []]"
  have u: "unchanged h h1"
    by (auto simp: unchanged_def h1_def nth_append)
  have l1: "lookup h1 a = Some (RefList mrefs)"
    using lookup_Some_unchanged[OF u l] .
  with assms(2) have run: "forward_loop_heap gen sched 0 mrefs (length h) h1 = (res, h')"
    by (simp add: forward_heap_def alloc_def h1_def)
  have mb: "lookup h1 (length h) = Some (RefList [])"
    by (simp add: lookup_def h1_def)
  from forward_loop_heap_refines[where acc = "[]" and brefs = "[]" and sub = "[]", OF u t _ mb _ _ run]
  show ?thesis
    by (simp add: forward_def)
qed

section \<open>The sequence of events\<close>

lemma collect_events_Done: "e \<in> set (collect_events i fs order) \<Longrightarrow> \<exists>j. e = Done i j"
  by (induction order) (auto split: sum.splits)

lemma module_events_module: "e \<in> set (module_events gen order i m) \<Longrightarrow> module_of e = i"
  by (auto simp: module_events_def Let_def dest: collect_events_module)

lemma forward_events_module_bounds:
  "e \<in> set (forward_events gen sched i ms) \<Longrightarrow> i \<le> module_of e \<and> module_of e < i + length ms"
proof (induction ms arbitrary: i)
  case Nil
  then show ?case by simp
next
  case (Cons m ms)
  then show ?case
    by (fastforce split: sum.splits dest: module_events_module)
qed

lemma sorted_map_const: "\<forall>x \<in> set xs. f x = (c::nat) \<Longrightarrow> sorted (map f xs)"
  by (induction xs) auto

lemma sorted_forward_events: "sorted (map module_of (forward_events gen sched i ms))"
proof (induction ms arbitrary: i)
  case Nil
  then show ?case by simp
next
  case (Cons m ms)
  have seg: "sorted (map module_of (module_events gen (sched i) i m))"
    by (rule sorted_map_const[where c = i]) (simp add: module_events_module)
  have later: "module_of x \<le> module_of y"
    if "x \<in> set (module_events gen (sched i) i m)" "y \<in> set (forward_events gen sched (Suc i) ms)"
    for x y
    using module_events_module[OF that(1)] forward_events_module_bounds[OF that(2)] by simp
  show ?case
    using seg Cons.IH[of "Suc i"] later
    by (auto simp: sorted_append split: sum.splits)
qed

lemma collect_events_all_Inr:
  "\<forall>j \<in> set order. \<exists>r. futures ! j = Inr r \<Longrightarrow> collect_events i futures order = map (Done i) order"
  by (induction order) auto

lemma module_events_built:
  assumes "forward_module gen order m = Inr b"
  shows "module_events gen order i m =
           [PoolEnter i] @ map (Submit i) [0..<length (skills m)] @ map (Done i) order @ [PoolExit i]"
proof -
  have "\<forall>f \<in> set (as_completed order (submit_all gen (skill_tasks m))). \<exists>r. f = Inr r"
    using forward_module_Inr(3)[OF assms] .
  then have "\<forall>j \<in> set order. \<exists>r. submit_all gen (skill_tasks m) ! j = Inr r"
    by (simp add: as_completed_def)
  from collect_events_all_Inr[OF this] show ?thesis
    by (simp add: module_events_def length_submit_all)
qed

lemma completion_order_set: "completion_order k order \<Longrightarrow> set order = {0..<k}"
  by (metis completion_order_mset set_mset_mset set_upt)

lemma module_events_built_members:
  assumes "forward_module gen order m = Inr b"
    and "completion_order (length (skills m)) order"
    and "j < length (skills m)"
  shows "PoolEnter i \<in> set (module_events gen order i m)"
    and "Submit i j \<in> set (module_events gen order i m)"
    and "Done i j \<in> set (module_events gen order i m)"
    and "PoolExit i \<in> set (module_events gen order i m)"
  using assms(3) completion_order_set[OF assms(2)]
  by (auto simp: module_events_built[OF assms(1)])

lemma append_eq_split_notin:
  assumes "xs @ ys = P @ x # S" and "x \<notin> set xs"
  shows "\<exists>P'. P = xs @ P' \<and> ys = P' @ x # S"
  using assms by (auto simp: append_eq_append_conv2 append_eq_Cons_conv)

lemma forward_events_barrier:
  assumes "forward_events gen sched i ms = P @ Submit i' j' # S"
    and "\<forall>n < length ms. completion_order (length (skills (ms ! n))) (sched (i + n))"
    and "i \<le> k" and "k < i'" and "j < length (skills (ms ! (k - i)))"
  shows "PoolEnter k \<in> set P \<and> Submit k j \<in> set P \<and> Done k j \<in> set P \<and> PoolExit k \<in> set P"
  using assms
proof (induction ms arbitrary: i P)
  case Nil
  then show ?case by simp
next
  case (Cons m ms)
  let ?seg = "module_events gen (sched i) i m"
  let ?rest = "case forward_module gen (sched i) m of Inl e \<Rightarrow> []
               | Inr bundle \<Rightarrow> forward_events gen sched (Suc i) ms"
  have notin: "Submit i' j' \<notin> set ?seg"
    using module_events_module[of "Submit i' j'" gen "sched i" i m] Cons.prems(3,4) by auto
  have eq: "?seg @ ?rest = P @ Submit i' j' # S"
    using Cons.prems(1) by simp
  from append_eq_split_notin[OF eq notin]
  obtain P' where P: "P = ?seg @ P'" and rest: "?rest = P' @ Submit i' j' # S"
    by (elim exE conjE)
  from rest obtain b where b: "forward_module gen (sched i) m = Inr b"
    and rest': "forward_events gen sched (Suc i) ms = P' @ Submit i' j' # S"
    by (cases "forward_module gen (sched i) m") auto
  show ?case
  proof (cases "k = i")
    case True
    have co: "completion_order (length (skills m)) (sched i)"
      using Cons.prems(2)[rule_format, of 0] by simp
    from module_events_built_members[OF b co, of j i] Cons.prems(5) True P
    show ?thesis by simp
  next
    case False
    with Cons.prems(3) have ki: "Suc i \<le> k" by simp
    have "completion_order (length (skills (ms ! n))) (sched (Suc i + n))" if "n < length ms" for n
      using Cons.prems(2)[rule_format, of "Suc n"] that by simp
    then have v: "\<forall>n < length ms. completion_order (length (skills (ms ! n))) (sched (Suc i + n))"
      by blast
    have "k - i = Suc (k - Suc i)"
      using ki by arith
    then have "(m # ms) ! (k - i) = ms ! (k - Suc i)"
      by simp
    with Cons.prems(5) have j: "j < length (skills (ms ! (k - Suc i)))"
      by simp
    from Cons.IH[OF rest' v ki Cons.prems(4) j] P show ?thesis
      by simp
  qed
qed

lemma forward_events_segment:
  assumes "e \<in> set (forward_events gen sched i ms)" and "module_of e = k"
  shows "filter (\<lambda>x. module_of x = k) (forward_events gen sched i ms) =
           module_events gen (sched k) k (ms ! (k - i))"
  using assms
proof (induction ms arbitrary: i)
  case Nil
  then show ?case by simp
next
  case (Cons m ms)
  let ?seg = "module_events gen (sched i) i m"
  let ?rest = "case forward_module gen (sched i) m of Inl e \<Rightarrow> []
               | Inr bundle \<Rightarrow> forward_events gen sched (Suc i) ms"
  have rest_ge: "Suc i \<le> module_of x" if "x \<in> set ?rest" for x
    using that forward_events_module_bounds[of x gen sched "Suc i" ms]
    by (auto split: sum.splits)
  show ?case
  proof (cases "k = i")
    case True
    have "filter (\<lambda>x. module_of x = k) ?seg = ?seg"
      using True by (simp add: module_events_module)
    moreover have "filter (\<lambda>x. module_of x = k) ?rest = []"
      using True rest_ge by (fastforce simp: filter_empty_conv)
    ultimately show ?thesis
      using True by simp
  next
    case False
    have "e \<notin> set ?seg"
      using module_events_module[of e gen "sched i" i m] False Cons.prems(2) by auto
    with Cons.prems(1) have e: "e \<in> set ?rest"
      by auto
    then obtain b where b: "forward_module gen (sched i) m = Inr b"
      and e': "e \<in> set (forward_events gen sched (Suc i) ms)"
      by (cases "forward_module gen (sched i) m") auto
    from rest_ge[OF e] Cons.prems(2) have ki: "Suc i \<le> k"
      by simp
    have "k - i = Suc (k - Suc i)"
      using ki by arith
    then have nth: "(m # ms) ! (k - i) = ms ! (k - Suc i)"
      by simp
    have "filter (\<lambda>x. module_of x = k) ?seg = []"
      using False by (auto simp: filter_empty_conv dest: module_events_module)
    with Cons.IH[OF e' Cons.prems(2)] b nth show ?thesis
      by simp
  qed
qed

lemma forward_events_all_built:
  assumes "\<forall>n < length ms. \<exists>b. forward_module gen (sched (i + n)) (ms ! n) = Inr b"
    and "n < length ms"
  shows "PoolEnter (i + n) \<in> set (forward_events gen sched i ms)"
  using assms
proof (induction ms arbitrary: i n)
  case Nil
  then show ?case by simp
next
  case (Cons m ms)
  from Cons.prems(1)[rule_format, of 0] obtain b where b: "forward_module gen (sched i) m = Inr b"
    by auto
  show ?case
  proof (cases n)
    case 0
    then show ?thesis
      by (simp add: module_events_def Let_def)
  next
    case (Suc n')
    have "\<exists>b. forward_module gen (sched (Suc i + n)) (ms ! n) = Inr b" if "n < length ms" for n
      using Cons.prems(1)[rule_format, of "Suc n"] that by simp
    then have "\<forall>n < length ms. \<exists>b. forward_module gen (sched (Suc i + n)) (ms ! n) = Inr b"
      by blast
    from Cons.IH[OF this, of n'] Suc Cons.prems(2) b show ?thesis
      by simp
  qed
qed

lemma module_events_ends:
  "hd (module_events gen order i m) = PoolEnter i \<and> last (module_events gen order i m) = PoolExit i"
  by (simp add: module_events_def Let_def)

lemma forward_trace_segment:
  assumes "e \<in> set (forward_trace gen sched ms)"
  shows "filter (\<lambda>x. module_of x = module_of e) (forward_trace gen sched ms) =
           module_events gen (sched (module_of e)) (module_of e) (ms ! module_of e)"
  using forward_events_segment[of e gen sched 0 ms "module_of e"] assms
  by (simp add: forward_trace_def)

lemma forward_trace_Submit_bound:
  assumes "Submit k j \<in> set (forward_trace gen sched ms)"
  shows "j < length (skills (ms ! k))"
proof -
  have seg: "filter (\<lambda>x. module_of x = k) (forward_trace gen sched ms) =
      module_events gen (sched k) k (ms ! k)"
    using forward_trace_segment[OF assms] by simp
  have "Submit k j \<in> set (filter (\<lambda>x. module_of x = k) (forward_trace gen sched ms))"
    using assms by simp
  then have "Submit k j \<in> set (module_events gen (sched k) k (ms ! k))"
    unfolding seg .
  then show ?thesis
    by (auto simp: module_events_def Let_def length_submit_all dest: collect_events_module
        collect_events_Done)
qed

lemma submitted_task_collect_events:
  "concat (map (submitted_task msall) (collect_events i fs order)) = []"
  by (induction order) (auto split: sum.splits)

lemma submitted_task_module_events:
  assumes "msall ! i = m"
  shows "concat (map (submitted_task msall) (module_events gen order i m)) = skill_tasks m"
proof -
  have "concat (map (submitted_task msall) (map (Submit i) [0..<length (skills m)])) =
      map (\<lambda>j. (module_name m, skills m ! j)) [0..<length (skills m)]"
    using assms by (induction "length (skills m)" arbitrary: m) (simp_all add: comp_def concat_map_singleton)
  also have "\<dots> = map (\<lambda>skill. (module_name m, skill)) (map (\<lambda>j. skills m ! j) [0..<length (skills m)])"
    by (simp add: comp_def)
  also have "\<dots> = skill_tasks m"
    by (simp add: map_nth skill_tasks_def)
  finally show ?thesis
    by (simp add: module_events_def Let_def length_submit_all submitted_task_collect_events)
qed

lemma forward_loop_submitted_events:
  assumes "\<forall>n < length ms. msall ! (i + n) = ms ! n"
  shows "snd (forward_loop gen sched i ms acc sub) =
           sub @ concat (map (submitted_task msall) (forward_events gen sched i ms))"
  using assms
proof (induction ms arbitrary: i acc sub)
  case Nil
  then show ?case by simp
next
  case (Cons m ms)
  have m: "msall ! i = m"
    using Cons.prems[rule_format, of 0] by simp
  have "msall ! (Suc i + n) = ms ! n" if "n < length ms" for n
    using Cons.prems[rule_format, of "Suc n"] that by simp
  then have rest: "\<forall>n < length ms. msall ! (Suc i + n) = ms ! n"
    by blast
  show ?case
    using Cons.IH[OF rest] submitted_task_module_events[OF m]
    by (simp split: sum.splits)
qed

section \<open>The claims\<close>

text \<open>
  Claim C1. When every adapter call succeeds, \<open>forward\<close> returns a result with exactly one
  bundle per input module, bundle \<open>i\<close> carrying the name of module \<open>i\<close>. The tasks
  submitted are exactly one per skill of each module, with that module's name, and the
  blocks of a bundle are, as a multiset, the blocks returned by the tasks of its module:
  none dropped, none duplicated, so the bundle's length is the sum of the lengths the
  tasks returned. This holds for every completion order of the futures.
\<close>

theorem forward_one_bundle_per_module:
  assumes "valid_sched sched ms"
    and "all_succeed gen ms"
  shows "\<exists>r. forward gen sched ms = (Inr r, concat (map skill_tasks ms)) \<and>
           length (modules r) = length ms \<and>
           (\<forall>i < length ms.
              bundle_module_name (modules r ! i) = module_name (ms ! i) \<and>
              length (skill_tasks (ms ! i)) = length (skills (ms ! i)) \<and>
              mset (content_blocks (modules r ! i)) = task_blocks gen (ms ! i) \<and>
              length (content_blocks (modules r ! i)) =
                (\<Sum>s \<leftarrow> skills (ms ! i). length (projr (gen (module_name (ms ! i)) s))))"
proof -
  have ok: "\<forall>j < length ms. \<exists>b. forward_module gen (sched (0 + j)) (ms ! j) = Inr b"
    using assms by (simp add: forward_module_succeeds valid_sched_nth all_succeed_iff)
  from forward_loop_succeeds[OF ok, of "[]" "[]"] obtain r
    where r: "forward gen sched ms = (Inr r, concat (map skill_tasks ms))"
    by (auto simp: forward_def)
  from forward_loop_Inr[of gen sched 0 ms "[]" "[]" r] r
  have len: "length (modules r) = length ms"
    and nth: "\<forall>j < length ms. forward_module gen (sched j) (ms ! j) = Inr (modules r ! j)"
    by (auto simp: forward_def)
  have "bundle_module_name (modules r ! i) = module_name (ms ! i) \<and>
        length (skill_tasks (ms ! i)) = length (skills (ms ! i)) \<and>
        mset (content_blocks (modules r ! i)) = task_blocks gen (ms ! i) \<and>
        length (content_blocks (modules r ! i)) =
          (\<Sum>s \<leftarrow> skills (ms ! i). length (projr (gen (module_name (ms ! i)) s)))"
    if i: "i < length ms" for i
  proof -
    have fm: "forward_module gen (sched i) (ms ! i) = Inr (modules r ! i)"
      using nth i by simp
    have co: "completion_order (length (skills (ms ! i))) (sched i)"
      using assms(1) i by (rule valid_sched_nth)
    have m: "mset (content_blocks (modules r ! i)) = task_blocks gen (ms ! i)"
      using forward_module_Inr_valid(1)[OF fm co] .
    have "length (content_blocks (modules r ! i)) = size (task_blocks gen (ms ! i))"
      using m by (metis size_mset)
    then show ?thesis
      using forward_module_Inr(1)[OF fm] m
      by (simp add: size_task_blocks skill_tasks_def)
  qed
  with r len show ?thesis by blast
qed

text \<open>
  The scenario of the specification: the module "Web Basics" with the skills "HTML basics"
  and "CSS basics", a stub adapter returning one text block per skill, and the second
  task finishing first. The bundle is named "Web Basics" and has two blocks, both of
  type Text.
\<close>

theorem forward_one_bundle_per_module_witness:
  "valid_sched (\<lambda>i. [1, 0]) [web_basics] \<and>
   all_succeed stub_adapter [web_basics] \<and>
   (\<exists>r. forward stub_adapter (\<lambda>i. [1, 0]) [web_basics] =
          (Inr r, [(''Web Basics'', ''HTML basics''), (''Web Basics'', ''CSS basics'')]) \<and>
        map bundle_module_name (modules r) = [''Web Basics''] \<and>
        map (\<lambda>b. map type_field (content_blocks b)) (modules r) = [[''Text'', ''Text'']])"
proof -
  have h1: "valid_sched (\<lambda>i. [1, 0]) [web_basics]"
    by (simp add: valid_sched_def web_basics_def completion_order_def)
  have h2: "all_succeed stub_adapter [web_basics]"
    by (simp add: all_succeed_def stub_adapter_def)
  have ev: "forward stub_adapter (\<lambda>i. [1, 0]) [web_basics] =
      (Inr \<lparr>modules = [\<lparr>bundle_module_name = ''Web Basics'', content_blocks =
         [Text (TextContentOut_init 0 0 None ''CSS basics'' None None None None ''About CSS basics''),
          Text (TextContentOut_init 0 0 None ''HTML basics'' None None None None ''About HTML basics'')]\<rparr>]\<rparr>,
       [(''Web Basics'', ''HTML basics''), (''Web Basics'', ''CSS basics'')])"
    by (simp add: forward_def forward_module_def submit_all_def skill_tasks_def as_completed_def
        generate_skill_content_def stub_adapter_def web_basics_def)
  show ?thesis
    using h1 h2 forward_one_bundle_per_module[OF h1 h2] ev by simp
qed

text \<open>
  Claim C2. If the adapter call for one skill of module \<open>i\<close> raises an error
  (\<open>GenerationFormatError\<close> or any other), then the bundle of that module is not built,
  and the whole call fails: it returns no result, and the error it returns is the error
  raised by a task of module \<open>i\<close> or of an earlier module, exactly as that task raised
  it. Nothing is substituted and nothing is retried: the tasks submitted are the tasks of
  the modules up to the failing one, each once. If all failing calls raise the same error
  (as when only one call fails), that error is the one returned.
\<close>

theorem forward_propagates_error:
  assumes "valid_sched sched ms"
    and "i < length ms"
    and "s \<in> set (skills (ms ! i))"
    and "gen (module_name (ms ! i)) s = Inl err"
  shows "(\<exists>e. forward_module gen (sched i) (ms ! i) = Inl e) \<and>
         (\<exists>e k. fst (forward gen sched ms) = Inl e \<and> k \<le> i \<and>
            (\<exists>s' \<in> set (skills (ms ! k)). gen (module_name (ms ! k)) s' = Inl e) \<and>
            snd (forward gen sched ms) = concat (map skill_tasks (take (Suc k) ms))) \<and>
         ((\<forall>m \<in> set ms. \<forall>s' \<in> set (skills m). \<forall>e. gen (module_name m) s' = Inl e \<longrightarrow> e = err)
            \<longrightarrow> fst (forward gen sched ms) = Inl err)"
proof -
  have co: "completion_order (length (skills (ms ! i))) (sched i)"
    using assms(1,2) by (rule valid_sched_nth)
  have not_ok: "forward_module gen (sched i) (ms ! i) \<noteq> Inr b" for b
    using forward_module_Inr_valid(2)[OF _ co, of gen b] assms(3,4) by fastforce
  then have A: "\<exists>e. forward_module gen (sched i) (ms ! i) = Inl e"
    by (cases "forward_module gen (sched i) (ms ! i)") auto
  obtain res sub where fw: "forward gen sched ms = (res, sub)"
    by (cases "forward gen sched ms")
  have "res \<noteq> Inr r" for r
    using forward_Inr(2)[of gen sched ms r sub] fw assms(2) not_ok by auto
  then obtain e where e: "res = Inl e"
    by (cases res) auto
  from forward_Inl[of gen sched ms e sub] fw e obtain k where k: "k < length ms"
    "forward_module gen (sched k) (ms ! k) = Inl e"
    "\<forall>j < k. \<exists>b. forward_module gen (sched j) (ms ! j) = Inr b"
    "sub = concat (map skill_tasks (take (Suc k) ms))"
    by auto
  have ki: "k \<le> i"
    using k(3) not_ok by (meson not_le)
  have cok: "completion_order (length (skills (ms ! k))) (sched k)"
    using assms(1) k(1) by (rule valid_sched_nth)
  from forward_module_Inl[OF k(2) cok] obtain s' where
    s': "s' \<in> set (skills (ms ! k))" "gen (module_name (ms ! k)) s' = Inl e"
    by blast
  have B: "\<exists>e k. fst (forward gen sched ms) = Inl e \<and> k \<le> i \<and>
            (\<exists>s' \<in> set (skills (ms ! k)). gen (module_name (ms ! k)) s' = Inl e) \<and>
            snd (forward gen sched ms) = concat (map skill_tasks (take (Suc k) ms))"
    using fw e ki s' k(4) by auto
  have C: "fst (forward gen sched ms) = Inl err"
    if "\<forall>m \<in> set ms. \<forall>s' \<in> set (skills m). \<forall>e. gen (module_name m) s' = Inl e \<longrightarrow> e = err"
  proof -
    have "ms ! k \<in> set ms" using k(1) by simp
    with that s' have "e = err" by blast
    with fw e show ?thesis by simp
  qed
  from A B C show ?thesis by blast
qed

theorem forward_propagates_error_witness:
  "valid_sched (first_reversed [scripting, web_basics]) [scripting, web_basics] \<and>
   (1::nat) < length [scripting, web_basics] \<and>
   ''CSS basics'' \<in> set (skills ([scripting, web_basics] ! 1)) \<and>
   failing_adapter (module_name ([scripting, web_basics] ! 1)) ''CSS basics'' = Inl GenerationFormatError \<and>
   forward failing_adapter (first_reversed [scripting, web_basics]) [scripting, web_basics] =
     (Inl GenerationFormatError,
      [(''Scripting'', ''JavaScript basics''), (''Web Basics'', ''HTML basics''),
       (''Web Basics'', ''CSS basics'')])"
proof -
  have h1: "valid_sched (first_reversed [scripting, web_basics]) [scripting, web_basics]"
    by (simp add: run_defs less_Suc_eq)
  have h2: "(1::nat) < length [scripting, web_basics]"
    by simp
  have h3: "''CSS basics'' \<in> set (skills ([scripting, web_basics] ! 1))"
    by (simp add: web_basics_def)
  have h4: "failing_adapter (module_name ([scripting, web_basics] ! 1)) ''CSS basics'' =
      Inl GenerationFormatError"
    by (simp add: failing_adapter_def)
  have ev: "snd (forward failing_adapter (first_reversed [scripting, web_basics]) [scripting, web_basics]) =
      [(''Scripting'', ''JavaScript basics''), (''Web Basics'', ''HTML basics''),
       (''Web Basics'', ''CSS basics'')]"
    by (simp add: run_defs)
  have only: "\<forall>m \<in> set [scripting, web_basics]. \<forall>s' \<in> set (skills m). \<forall>e.
      failing_adapter (module_name m) s' = Inl e \<longrightarrow> e = GenerationFormatError"
    by (simp add: failing_adapter_def stub_adapter_def)
  from forward_propagates_error[where ms = "[scripting, web_basics]" and i = 1 and s = "''CSS basics''"
      and gen = failing_adapter and err = GenerationFormatError, OF h1 h2 h3 h4] only
  have "fst (forward failing_adapter (first_reversed [scripting, web_basics]) [scripting, web_basics]) =
      Inl GenerationFormatError"
    by blast
  with ev have "forward failing_adapter (first_reversed [scripting, web_basics]) [scripting, web_basics] =
     (Inl GenerationFormatError,
      [(''Scripting'', ''JavaScript basics''), (''Web Basics'', ''HTML basics''),
       (''Web Basics'', ''CSS basics'')])"
    by (simp add: prod_eq_iff)
  with h1 h2 h3 h4 show ?thesis by blast
qed

text \<open>
  Claim C3. Whenever \<open>forward\<close> returns a result, whatever the completion orders of the
  futures were, the result has one bundle per module and the bundle at position \<open>i\<close> is
  the bundle built from the module at position \<open>i\<close> of the input; so the names of the
  bundles, in order, are the names of the input modules, in order.
\<close>

theorem forward_preserves_module_order:
  assumes "forward gen sched ms = (Inr r, sub)"
  shows "length (modules r) = length ms \<and>
         map bundle_module_name (modules r) = map module_name ms \<and>
         (\<forall>i < length ms. forward_module gen (sched i) (ms ! i) = Inr (modules r ! i))"
proof -
  note len = forward_Inr(1)[OF assms] and nth = forward_Inr(2)[OF assms]
  have "bundle_module_name (modules r ! i) = module_name (ms ! i)" if "i < length ms" for i
    using nth that forward_module_Inr(1) by blast
  then have "map bundle_module_name (modules r) = map module_name ms"
    using len by (simp add: list_eq_iff_nth_eq)
  with len nth show ?thesis by blast
qed

theorem forward_preserves_module_order_witness:
  "(\<exists>r sub. forward stub_adapter (first_reversed [web_basics, scripting]) [web_basics, scripting] =
       (Inr r, sub) \<and>
     map bundle_module_name (modules r) = [''Web Basics'', ''Scripting''])"
proof -
  obtain r sub where
    run: "forward stub_adapter (first_reversed [web_basics, scripting]) [web_basics, scripting] = (Inr r, sub)"
    by (simp add: run_defs)
  from forward_preserves_module_order[OF run]
  have "map bundle_module_name (modules r) = map module_name [web_basics, scripting]"
    by blast
  then have "map bundle_module_name (modules r) = [''Web Basics'', ''Scripting'']"
    by (simp add: web_basics_def scripting_def)
  with run show ?thesis by auto
qed

text \<open>
  Claim C6. Two runs of \<open>forward\<close> on the same module list with the same adapter, under
  any two completion schedules, either both fail or both return a result; and the two
  results have the same bundle names in the same order and, bundle by bundle, the same
  multiset of content blocks. Only the order of the blocks inside a bundle can differ.
\<close>

theorem forward_twice_same_blocks:
  assumes "valid_sched sched1 ms" and "valid_sched sched2 ms"
  shows "((\<exists>r1. fst (forward gen sched1 ms) = Inr r1) \<longleftrightarrow> (\<exists>r2. fst (forward gen sched2 ms) = Inr r2)) \<and>
         (\<forall>r1 r2. fst (forward gen sched1 ms) = Inr r1 \<and> fst (forward gen sched2 ms) = Inr r2 \<longrightarrow>
            map bundle_module_name (modules r1) = map bundle_module_name (modules r2) \<and>
            map (\<lambda>b. mset (content_blocks b)) (modules r1) =
              map (\<lambda>b. mset (content_blocks b)) (modules r2))"
proof -
  have A: "(\<exists>r1. fst (forward gen sched1 ms) = Inr r1) \<longleftrightarrow> (\<exists>r2. fst (forward gen sched2 ms) = Inr r2)"
    using forward_succeeds_iff[OF assms(1), of gen] forward_succeeds_iff[OF assms(2), of gen]
    by simp
  have B: "map bundle_module_name (modules r1) = map bundle_module_name (modules r2) \<and>
           map (\<lambda>b. mset (content_blocks b)) (modules r1) =
             map (\<lambda>b. mset (content_blocks b)) (modules r2)"
    if run1: "fst (forward gen sched1 ms) = Inr r1" and run2: "fst (forward gen sched2 ms) = Inr r2"
    for r1 r2
  proof -
    obtain sub1 where f1: "forward gen sched1 ms = (Inr r1, sub1)"
      using run1 by (cases "forward gen sched1 ms") auto
    obtain sub2 where f2: "forward gen sched2 ms = (Inr r2, sub2)"
      using run2 by (cases "forward gen sched2 ms") auto
    show ?thesis
      using forward_names[OF f1] forward_names[OF f2]
        forward_blocks_mset[OF assms(1) f1] forward_blocks_mset[OF assms(2) f2]
      by simp
  qed
  from A B show ?thesis by blast
qed

text \<open>
  The two tasks of "Web Basics" finishing in submission order in one run and in the
  reverse order in the other: the block lists differ, their multisets do not.
\<close>

theorem forward_twice_same_blocks_witness:
  "valid_sched (in_order [web_basics]) [web_basics] \<and>
   valid_sched (first_reversed [web_basics]) [web_basics] \<and>
   (\<exists>r1 r2. fst (forward stub_adapter (in_order [web_basics]) [web_basics]) = Inr r1 \<and>
      fst (forward stub_adapter (first_reversed [web_basics]) [web_basics]) = Inr r2 \<and>
      map content_blocks (modules r1) \<noteq> map content_blocks (modules r2) \<and>
      map bundle_module_name (modules r1) = map bundle_module_name (modules r2) \<and>
      map (\<lambda>b. mset (content_blocks b)) (modules r1) =
        map (\<lambda>b. mset (content_blocks b)) (modules r2))"
proof -
  have h1: "valid_sched (in_order [web_basics]) [web_basics]"
    by (simp add: run_defs)
  have h2: "valid_sched (first_reversed [web_basics]) [web_basics]"
    by (simp add: run_defs)
  obtain r1 where r1: "fst (forward stub_adapter (in_order [web_basics]) [web_basics]) = Inr r1"
    by (simp add: run_defs)
  obtain r2 where r2: "fst (forward stub_adapter (first_reversed [web_basics]) [web_basics]) = Inr r2"
    by (simp add: run_defs)
  have differ: "map content_blocks (modules r1) \<noteq> map content_blocks (modules r2)"
    using r1 r2 by (auto simp: run_defs TextContentOut_init_def)
  from forward_twice_same_blocks[OF h1 h2, of stub_adapter] r1 r2
  have "map bundle_module_name (modules r1) = map bundle_module_name (modules r2) \<and>
      map (\<lambda>b. mset (content_blocks b)) (modules r1) =
        map (\<lambda>b. mset (content_blocks b)) (modules r2)"
    by blast
  with h1 h2 r1 r2 differ show ?thesis by blast
qed

text \<open>
  Claim C9. On the empty module list \<open>forward\<close> returns a result without bundles and
  submits no task. A module without skills has no task; its bundle is built, with the
  module's name and no content block, and a run on that module alone submits nothing.
  In a run on any module list that returns a result, the bundle at the position of a
  module without skills has that module's name and no content block, and every task
  submitted belongs to another module.
\<close>

theorem forward_empty_inputs:
  "forward gen sched [] = (Inr \<lparr>modules = []\<rparr>, []) \<and>
   (skills m = [] \<longrightarrow> completion_order (length (skills m)) order \<longrightarrow>
      skill_tasks m = [] \<and>
      forward_module gen order m = Inr \<lparr>bundle_module_name = module_name m, content_blocks = []\<rparr> \<and>
      forward gen (\<lambda>i. order) [m] =
        (Inr \<lparr>modules = [\<lparr>bundle_module_name = module_name m, content_blocks = []\<rparr>]\<rparr>, [])) \<and>
   (valid_sched sched ms \<longrightarrow> i < length ms \<longrightarrow> skills (ms ! i) = [] \<longrightarrow>
      (\<forall>r sub. forward gen sched ms = (Inr r, sub) \<longrightarrow>
         modules r ! i = \<lparr>bundle_module_name = module_name (ms ! i), content_blocks = []\<rparr> \<and>
         sub = concat (map skill_tasks (take i ms)) @ concat (map skill_tasks (drop (Suc i) ms))))"
proof -
  have A: "forward gen sched [] = (Inr \<lparr>modules = []\<rparr>, [])"
    by (simp add: forward_def)
  have ord: "order = []" if "completion_order 0 order" for order
    using that completion_order_mset by fastforce
  have fm: "forward_module gen order m = Inr \<lparr>bundle_module_name = module_name m, content_blocks = []\<rparr>"
    if "skills m = []" "completion_order (length (skills m)) order" for m order
    using that ord[of order]
    by (simp add: forward_module_def submit_all_def skill_tasks_def as_completed_def)
  have B: "skill_tasks m = [] \<and>
      forward_module gen order m = Inr \<lparr>bundle_module_name = module_name m, content_blocks = []\<rparr> \<and>
      forward gen (\<lambda>i. order) [m] =
        (Inr \<lparr>modules = [\<lparr>bundle_module_name = module_name m, content_blocks = []\<rparr>]\<rparr>, [])"
    if "skills m = []" "completion_order (length (skills m)) order"
    using fm[OF that] that(1) by (simp add: forward_def skill_tasks_def)
  have C: "modules r ! i = \<lparr>bundle_module_name = module_name (ms ! i), content_blocks = []\<rparr> \<and>
         sub = concat (map skill_tasks (take i ms)) @ concat (map skill_tasks (drop (Suc i) ms))"
    if v: "valid_sched sched ms" and i: "i < length ms" and e: "skills (ms ! i) = []"
      and fw: "forward gen sched ms = (Inr r, sub)" for r sub
  proof -
    have "forward_module gen (sched i) (ms ! i) = Inr (modules r ! i)"
      using forward_Inr(2)[OF fw] i by simp
    with fm[OF e valid_sched_nth[OF v i]]
    have 1: "modules r ! i = \<lparr>bundle_module_name = module_name (ms ! i), content_blocks = []\<rparr>"
      by simp
    have "ms = take i ms @ ms ! i # drop (Suc i) ms"
      using i by (simp add: id_take_nth_drop)
    then have "concat (map skill_tasks ms) =
        concat (map skill_tasks (take i ms)) @ skill_tasks (ms ! i) @ concat (map skill_tasks (drop (Suc i) ms))"
      by (metis concat.simps(2) concat_append list.simps(9) map_append)
    with forward_Inr(3)[OF fw] e 1 show ?thesis
      by (simp add: skill_tasks_def)
  qed
  from A B C show ?thesis by blast
qed

theorem forward_empty_inputs_witness:
  "skills no_skills = [] \<and> completion_order (length (skills no_skills)) [] \<and>
   forward stub_adapter (\<lambda>i. []) [no_skills] =
     (Inr \<lparr>modules = [\<lparr>bundle_module_name = ''Outlook'', content_blocks = []\<rparr>]\<rparr>, []) \<and>
   valid_sched (in_order [scripting, no_skills]) [scripting, no_skills] \<and>
   (1::nat) < length [scripting, no_skills] \<and> skills ([scripting, no_skills] ! 1) = [] \<and>
   (\<exists>r. forward stub_adapter (in_order [scripting, no_skills]) [scripting, no_skills] =
          (Inr r, [(''Scripting'', ''JavaScript basics'')]) \<and>
        modules r ! 1 = \<lparr>bundle_module_name = ''Outlook'', content_blocks = []\<rparr>)"
proof -
  have h1: "skills no_skills = []"
    by (simp add: no_skills_def)
  have h2: "completion_order (length (skills no_skills)) []"
    by (simp add: no_skills_def completion_order_def)
  have h3: "valid_sched (in_order [scripting, no_skills]) [scripting, no_skills]"
    by (simp add: run_defs less_Suc_eq)
  have h4: "(1::nat) < length [scripting, no_skills]"
    by simp
  have h5: "skills ([scripting, no_skills] ! 1) = []"
    by (simp add: no_skills_def)
  obtain r where run: "forward stub_adapter (in_order [scripting, no_skills]) [scripting, no_skills] =
      (Inr r, [(''Scripting'', ''JavaScript basics'')])"
    by (simp add: run_defs)
  note inst = forward_empty_inputs[of stub_adapter "in_order [scripting, no_skills]" no_skills "[]"
      "[scripting, no_skills]" 1]
  from inst h1 h2
  have a: "forward stub_adapter (\<lambda>i. []) [no_skills] =
     (Inr \<lparr>modules = [\<lparr>bundle_module_name = module_name no_skills, content_blocks = []\<rparr>]\<rparr>, [])"
    by blast
  from inst h3 h4 h5 run
  have b: "modules r ! 1 =
      \<lparr>bundle_module_name = module_name ([scripting, no_skills] ! 1), content_blocks = []\<rparr>"
    by blast
  from a b h1 h2 h3 h4 h5 run show ?thesis
    by (auto simp: no_skills_def)
qed

text \<open>
  Claim C7, as the code has it. The claim says that an accepted question block has a
  non-empty options sequence containing the correct answer. \<open>QuestionContentOut\<close>
  declares \<^verbatim>\<open>options: List[str]\<close> and \<^verbatim>\<open>correct_answer: str\<close> with no validator, so a block
  carries the options and the correct answer exactly as supplied, whatever they are, and
  \<open>forward\<close> stores the block an adapter returns in the bundle as it is.
\<close>

theorem question_block_fields_as_supplied:
  "options (QuestionContentOut_init now now' i t c mi ca ua qt opts ans usr) = opts \<and>
   correct_answer (QuestionContentOut_init now now' i t c mi ca ua qt opts ans usr) = ans \<and>
   fst (forward (question_adapter q) (in_order [\<lparr>module_name = n, skills = [s]\<rparr>])
          [\<lparr>module_name = n, skills = [s]\<rparr>]) =
     Inr \<lparr>modules = [\<lparr>bundle_module_name = n, content_blocks = [Question q]\<rparr>]\<rparr>"
  by (simp add: run_defs QuestionContentOut_init_def)

text \<open>
  A question block without options, whose correct answer is not among its options, is
  constructed and ends up in the bundle of a run.
\<close>

theorem question_block_invariant_counterexample:
  "fst (forward (question_adapter bad_question) (in_order [scripting]) [scripting]) =
     Inr \<lparr>modules = [\<lparr>bundle_module_name = ''Scripting'', content_blocks = [Question bad_question]\<rparr>]\<rparr> \<and>
   options bad_question = [] \<and>
   correct_answer bad_question \<notin> set (options bad_question)"
  by (simp add: run_defs bad_question_def QuestionContentOut_init_def)

text \<open>
  Claim C8, as the code has it. Each metadata field on its own, whatever the other inputs
  are, takes the default of the class when the input does not supply it under the
  field's input name (\<^verbatim>\<open>id\<close>, \<^verbatim>\<open>isComplete\<close>, \<^verbatim>\<open>moduleId\<close>, \<^verbatim>\<open>createdAt\<close>, \<^verbatim>\<open>updatedAt\<close>):
  identifier 1, completion flag true, owning-module reference 1, and for each timestamp
  the time at which its default is taken; and it takes the supplied value otherwise.
  \<open>forward\<close> sets no metadata: the blocks of bundle \<open>k\<close> are exactly the blocks that
  the tasks of module \<open>k\<close> returned, each with the metadata it came with, so the
  owning-module references found in the bundle are those of the returned blocks.
\<close>

theorem block_metadata_defaults:
  "id_field (TextContentOut_init now now' i t c mi ca ua b) = (case i of None \<Rightarrow> Some 1 | Some v \<Rightarrow> v) \<and>
   is_complete (TextContentOut_init now now' i t c mi ca ua b) =
     (case c of None \<Rightarrow> Some True | Some v \<Rightarrow> v) \<and>
   module_id (TextContentOut_init now now' i t c mi ca ua b) =
     (case mi of None \<Rightarrow> Some 1 | Some v \<Rightarrow> v) \<and>
   created_at (TextContentOut_init now now' i t c mi ca ua b) =
     (case ca of None \<Rightarrow> Some now | Some v \<Rightarrow> v) \<and>
   updated_at (TextContentOut_init now now' i t c mi ca ua b) =
     (case ua of None \<Rightarrow> Some now' | Some v \<Rightarrow> v) \<and>
   id_field (QuestionContentOut_init now now' i t c mi ca ua qt opts ans usr) =
     (case i of None \<Rightarrow> Some 1 | Some v \<Rightarrow> v) \<and>
   is_complete (QuestionContentOut_init now now' i t c mi ca ua qt opts ans usr) =
     (case c of None \<Rightarrow> Some True | Some v \<Rightarrow> v) \<and>
   module_id (QuestionContentOut_init now now' i t c mi ca ua qt opts ans usr) =
     (case mi of None \<Rightarrow> Some 1 | Some v \<Rightarrow> v) \<and>
   created_at (QuestionContentOut_init now now' i t c mi ca ua qt opts ans usr) =
     (case ca of None \<Rightarrow> Some now | Some v \<Rightarrow> v) \<and>
   updated_at (QuestionContentOut_init now now' i t c mi ca ua qt opts ans usr) =
     (case ua of None \<Rightarrow> Some now' | Some v \<Rightarrow> v) \<and>
   (valid_sched sched ms \<longrightarrow> forward gen sched ms = (Inr r, sub) \<longrightarrow> k < length ms \<longrightarrow>
      mset (content_blocks (modules r ! k)) = task_blocks gen (ms ! k) \<and>
      image_mset block_module_id (mset (content_blocks (modules r ! k))) =
        image_mset block_module_id (task_blocks gen (ms ! k)))"
proof -
  have "mset (content_blocks (modules r ! k)) = task_blocks gen (ms ! k)"
    if v: "valid_sched sched ms" and fw: "forward gen sched ms = (Inr r, sub)" and k: "k < length ms"
  proof -
    have "forward_module gen (sched k) (ms ! k) = Inr (modules r ! k)"
      using forward_Inr(2)[OF fw] k by simp
    from forward_module_Inr_valid(1)[OF this valid_sched_nth[OF v k]]
    show ?thesis .
  qed
  then show ?thesis
    by (simp add: TextContentOut_init_def QuestionContentOut_init_def Field_def)
qed

text \<open>
  A run on "Web Basics" and "Scripting" with the stub adapter, whose blocks take every
  default: the one block of the second bundle is the block the adapter returned for
  "JavaScript basics", with the owning-module reference 1.
\<close>

theorem block_metadata_defaults_witness:
  "valid_sched (first_reversed [web_basics, scripting]) [web_basics, scripting] \<and>
   (1::nat) < length [web_basics, scripting] \<and>
   (\<exists>r sub. forward stub_adapter (first_reversed [web_basics, scripting]) [web_basics, scripting] = (Inr r, sub) \<and>
      mset (content_blocks (modules r ! 1)) =
        {#Text (TextContentOut_init 0 0 None ''JavaScript basics'' None None None None
                  ''About JavaScript basics'')#} \<and>
      image_mset block_module_id (mset (content_blocks (modules r ! 1))) = {#Some 1#})"
proof -
  have h1: "valid_sched (first_reversed [web_basics, scripting]) [web_basics, scripting]"
    by (simp add: run_defs less_Suc_eq)
  have h2: "(1::nat) < length [web_basics, scripting]"
    by simp
  obtain r sub where
    run: "forward stub_adapter (first_reversed [web_basics, scripting]) [web_basics, scripting] = (Inr r, sub)"
    by (simp add: run_defs)
  have tb: "task_blocks stub_adapter ([web_basics, scripting] ! 1) =
      {#Text (TextContentOut_init 0 0 None ''JavaScript basics'' None None None None
                ''About JavaScript basics'')#}"
    by (simp add: task_blocks_def stub_adapter_def scripting_def)
  have ref: "block_module_id (Text (TextContentOut_init 0 0 None ''JavaScript basics'' None None None None
                ''About JavaScript basics'')) = Some 1"
    by (simp add: TextContentOut_init_def Field_def)
  from block_metadata_defaults[where sched = "first_reversed [web_basics, scripting]"
      and ms = "[web_basics, scripting]" and gen = stub_adapter and r = r and sub = sub and k = 1]
    h1 h2 run
  have "mset (content_blocks (modules r ! 1)) = task_blocks stub_adapter ([web_basics, scripting] ! 1)"
    by blast
  with tb ref h1 h2 run show ?thesis by auto
qed

text \<open>
  With the stub adapter, whose blocks take the defaults, the blocks generated for
  "Web Basics" and for "Scripting" all carry the owning-module reference 1; and a block
  whose input supplies the reference 7 carries 7.
\<close>

theorem module_reference_counterexample:
  "module_refs (fst (forward stub_adapter (in_order [web_basics, scripting]) [web_basics, scripting])) =
     [(''Web Basics'', [Some 1, Some 1]), (''Scripting'', [Some 1])] \<and>
   module_id (TextContentOut_init 0 0 None ''Tags'' None (Some (Some 7)) None None ''About tags'') = Some 7"
  by (simp add: run_defs module_refs_def TextContentOut_init_def Field_def)

text \<open>
  Claim C10. \<open>forward\<close> does not mutate its input. On the store, after a run that started
  in \<open>h\<close> and ended in \<open>h'\<close> (with a result or with an error), every object that
  existed before the run is unchanged: the run only creates objects and writes to objects
  it created. In particular the module list read back from the store, with each module's
  name and skills, is the same after the run as before.
\<close>

theorem forward_does_not_mutate_input:
  assumes "forward_heap gen sched a h = (res, h')"
  shows "length h \<le> length h' \<and> (\<forall>p < length h. lookup h' p = lookup h p) \<and>
         (\<forall>ms. read_modules h a = Some ms \<longrightarrow> read_modules h' a = Some ms)"
  using forward_heap_unchanged[OF assms] read_modules_unchanged unchanged_lookup
  by (auto simp: unchanged_def)

theorem forward_does_not_mutate_input_witness:
  "read_modules web_heap 2 = Some [web_basics] \<and>
   (\<exists>ra h'. forward_heap stub_adapter (first_reversed [web_basics]) 2 web_heap = (Inr ra, h') \<and>
      length web_heap < length h' \<and>
      lookup h' 0 = Some (StrList [''HTML basics'', ''CSS basics'']) \<and>
      lookup h' 1 = Some (ModuleObj ''Web Basics'' 0) \<and>
      lookup h' 2 = Some (RefList [1]) \<and>
      read_modules h' 2 = Some [web_basics])"
proof -
  have rd: "read_modules web_heap 2 = Some [web_basics]"
    by (simp add: read_modules_def read_module_def lookup_def web_heap_def web_basics_def)
  obtain ra h' where
    run: "forward_heap stub_adapter (first_reversed [web_basics]) 2 web_heap = (Inr ra, h')"
    and len: "length web_heap < length h'"
    by (simp add: forward_heap_def forward_module_heap_def alloc_def lookup_def web_heap_def
        run_defs)
  from forward_does_not_mutate_input[OF run] rd
  have keep: "\<forall>p < length web_heap. lookup h' p = lookup web_heap p"
    and rd': "read_modules h' 2 = Some [web_basics]"
    by blast+
  have "length web_heap = 3"
    by (simp add: web_heap_def)
  with keep have same: "lookup h' 0 = lookup web_heap 0" "lookup h' 1 = lookup web_heap 1"
    "lookup h' 2 = lookup web_heap 2"
    by auto
  have "lookup web_heap 0 = Some (StrList [''HTML basics'', ''CSS basics''])"
    "lookup web_heap 1 = Some (ModuleObj ''Web Basics'' 0)"
    "lookup web_heap 2 = Some (RefList [1])"
    by (simp_all add: web_heap_def lookup_def)
  with same have "lookup h' 0 = Some (StrList [''HTML basics'', ''CSS basics''])"
    "lookup h' 1 = Some (ModuleObj ''Web Basics'' 0)"
    "lookup h' 2 = Some (RefList [1])"
    by simp_all
  with rd run len rd' show ?thesis by blast
qed

text \<open>
  Claim C5. In the sequence of events of a run, under any valid completion schedule:
  the events are ordered by module, so nothing of a later module happens before anything
  of an earlier one; when a task of a module is submitted, every earlier module has had
  its executor entered, each of its tasks submitted and finished, and its executor left
  (the barrier); at every moment the tasks in flight all belong to one module; the events
  of each module form one segment that opens with entering a new executor and closes with
  leaving it, and in a run that returns a result every module has its segment, with every
  task submitted and finished inside it. The submissions of the sequence are the tasks
  that \<open>forward\<close> records as submitted.
\<close>

theorem forward_module_barrier:
  assumes "valid_sched sched ms"
  shows "sorted (map module_of (forward_trace gen sched ms)) \<and>
    (\<forall>P S i' j' k j. forward_trace gen sched ms = P @ Submit i' j' # S \<longrightarrow> k < i' \<longrightarrow>
        j < length (skills (ms ! k)) \<longrightarrow>
        PoolEnter k \<in> set P \<and> Submit k j \<in> set P \<and> Done k j \<in> set P \<and> PoolExit k \<in> set P) \<and>
    (\<forall>P S k j k' j'. forward_trace gen sched ms = P @ S \<longrightarrow>
        in_flight P k j \<longrightarrow> in_flight P k' j' \<longrightarrow> k = k') \<and>
    (\<forall>e \<in> set (forward_trace gen sched ms).
        filter (\<lambda>x. module_of x = module_of e) (forward_trace gen sched ms) =
          module_events gen (sched (module_of e)) (module_of e) (ms ! module_of e) \<and>
        hd (filter (\<lambda>x. module_of x = module_of e) (forward_trace gen sched ms)) =
          PoolEnter (module_of e) \<and>
        last (filter (\<lambda>x. module_of x = module_of e) (forward_trace gen sched ms)) =
          PoolExit (module_of e)) \<and>
    (\<forall>r sub k. forward gen sched ms = (Inr r, sub) \<longrightarrow> k < length ms \<longrightarrow>
        filter (\<lambda>x. module_of x = k) (forward_trace gen sched ms) =
          [PoolEnter k] @ map (Submit k) [0..<length (skills (ms ! k))] @
          map (Done k) (sched k) @ [PoolExit k]) \<and>
    concat (map (submitted_task ms) (forward_trace gen sched ms)) = snd (forward gen sched ms)"
proof -
  let ?T = "forward_trace gen sched ms"
  have v: "\<forall>n < length ms. completion_order (length (skills (ms ! n))) (sched (0 + n))"
    using assms by (simp add: valid_sched_def)
  have A: "sorted (map module_of ?T)"
    unfolding forward_trace_def by (rule sorted_forward_events)
  have B: "PoolEnter k \<in> set P \<and> Submit k j \<in> set P \<and> Done k j \<in> set P \<and> PoolExit k \<in> set P"
    if "?T = P @ Submit i' j' # S" "k < i'" "j < length (skills (ms ! k))" for P S i' j' k j
    using forward_events_barrier[of gen sched 0 ms P i' j' S k j] that v
    by (simp add: forward_trace_def)
  have C: "k = k'" if T: "?T = P @ S" and f1: "in_flight P k j" and f2: "in_flight P k' j'"
    for P S k j k' j'
  proof (rule ccontr)
    assume ne: "k \<noteq> k'"
    have later: False
      if lt: "a < b" and fa: "in_flight P a ja" and fb: "in_flight P b jb" for a b ja jb
    proof -
      from fb obtain P1 P2 where P: "P = P1 @ Submit b jb # P2"
        by (auto simp: in_flight_def dest: split_list)
      have "Submit a ja \<in> set ?T"
        using fa T by (simp add: in_flight_def)
      then have ja: "ja < length (skills (ms ! a))"
        by (rule forward_trace_Submit_bound)
      have "?T = P1 @ Submit b jb # (P2 @ S)"
        using T P by simp
      from B[OF this lt ja] have "Done a ja \<in> set P"
        using P by simp
      with fa show False
        by (simp add: in_flight_def)
    qed
    from ne later[of k k' j j'] later[of k' k j' j] f1 f2 show False
      by (cases "k < k'") auto
  qed
  have D: "filter (\<lambda>x. module_of x = module_of e) ?T =
          module_events gen (sched (module_of e)) (module_of e) (ms ! module_of e) \<and>
        hd (filter (\<lambda>x. module_of x = module_of e) ?T) = PoolEnter (module_of e) \<and>
        last (filter (\<lambda>x. module_of x = module_of e) ?T) = PoolExit (module_of e)"
    if "e \<in> set ?T" for e
    using forward_trace_segment[OF that] module_events_ends by simp
  have E: "filter (\<lambda>x. module_of x = k) ?T =
          [PoolEnter k] @ map (Submit k) [0..<length (skills (ms ! k))] @
          map (Done k) (sched k) @ [PoolExit k]"
    if run: "forward gen sched ms = (Inr r, sub)" and k: "k < length ms" for r sub k
  proof -
    have built: "\<forall>n < length ms. \<exists>b. forward_module gen (sched (0 + n)) (ms ! n) = Inr b"
      using forward_Inr(2)[OF run] by simp
    have "PoolEnter (0 + k) \<in> set (forward_events gen sched 0 ms)"
      using built k by (rule forward_events_all_built)
    then have "PoolEnter k \<in> set ?T"
      by (simp add: forward_trace_def)
    from forward_trace_segment[OF this]
    have "filter (\<lambda>x. module_of x = k) ?T = module_events gen (sched k) k (ms ! k)"
      by simp
    moreover obtain b where "forward_module gen (sched k) (ms ! k) = Inr b"
      using built k by auto
    ultimately show ?thesis
      by (simp add: module_events_built)
  qed
  have F: "concat (map (submitted_task ms) ?T) = snd (forward gen sched ms)"
    using forward_loop_submitted_events[of ms ms 0 gen sched "[]" "[]"]
    by (simp add: forward_def forward_trace_def)
  from A B C D E F show ?thesis
    by blast
qed

theorem forward_module_barrier_witness:
  "valid_sched (first_reversed [web_basics, scripting]) [web_basics, scripting] \<and>
   forward_trace stub_adapter (first_reversed [web_basics, scripting]) [web_basics, scripting] =
     [PoolEnter 0, Submit 0 0, Submit 0 1, Done 0 1, Done 0 0, PoolExit 0, PoolEnter 1] @
     Submit 1 0 # [Done 1 0, PoolExit 1] \<and>
   (0::nat) < 1 \<and> (1::nat) < length (skills ([web_basics, scripting] ! 0)) \<and>
   Done 0 1 \<in> set [PoolEnter 0, Submit 0 0, Submit 0 1, Done 0 1, Done 0 0, PoolExit 0, PoolEnter 1] \<and>
   PoolExit 0 \<in> set [PoolEnter 0, Submit 0 0, Submit 0 1, Done 0 1, Done 0 0, PoolExit 0, PoolEnter 1] \<and>
   in_flight [PoolEnter 0, Submit 0 0, Submit 0 1] 0 0 \<and>
   in_flight [PoolEnter 0, Submit 0 0, Submit 0 1] 0 1"
proof -
  let ?ms = "[web_basics, scripting]"
  let ?P = "[PoolEnter 0, Submit 0 0, Submit 0 1, Done 0 1, Done 0 0, PoolExit 0, PoolEnter 1]"
  have h1: "valid_sched (first_reversed ?ms) ?ms"
    by (simp add: run_defs less_Suc_eq)
  have ev: "forward_trace stub_adapter (first_reversed ?ms) ?ms = ?P @ Submit 1 0 # [Done 1 0, PoolExit 1]"
    by (simp add: forward_trace_def module_events_def run_defs)
  have h2: "(0::nat) < 1" and h3: "(1::nat) < length (skills (?ms ! 0))"
    by (simp_all add: web_basics_def)
  note barrier = forward_module_barrier[OF h1, of stub_adapter, THEN conjunct2, THEN conjunct1]
  from barrier[rule_format, OF ev h2 h3]
  have "Done 0 1 \<in> set ?P" and "PoolExit 0 \<in> set ?P"
    by blast+
  moreover have "in_flight [PoolEnter 0, Submit 0 0, Submit 0 1] 0 0"
    "in_flight [PoolEnter 0, Submit 0 0, Submit 0 1] 0 1"
    by (simp_all add: in_flight_def)
  ultimately show ?thesis
    using h1 ev h2 h3 by blast
qed

end
